theory Spec2Isabelle
  imports Complex_Main "HOL-Library.Sublist"
begin

section \<open>JavaScript values\<close>

text \<open>
  A JavaScript string is a sequence of UTF-16 code units. The embedding reads a
  \<^typ>\<open>char\<close> as a code unit in the range 0..255 (Latin-1), so \<^typ>\<open>string\<close> stands
  for the strings over that range and \<^const>\<open>length\<close> is the \<^verbatim>\<open>.length\<close> of the source.

  A number is an IEEE double. The functions below only test a number for finiteness,
  compare it, and take the sign of a difference of two finite numbers; on finite
  doubles these agree with the same operations on the rationals, so a finite number is
  a \<^typ>\<open>rat\<close> and the three non-finite doubles are constructors of their own.
\<close>

datatype jsnum = Num rat | NaN | Infinity | NegInfinity

datatype jsval =
    JUndefined
  | JNull
  | JBool bool
  | JNum jsnum
  | JStr string
  | JArr "jsval list"
  | JObj "(string \<times> jsval) list"

text \<open>\<^verbatim>\<open>Number.isFinite(x)\<close> for a value whose \<^verbatim>\<open>typeof\<close> is \<^verbatim>\<open>"number"\<close>.\<close>

fun isFinite :: "jsnum \<Rightarrow> bool" where
  "isFinite (Num q) = True"
| "isFinite NaN = False"
| "isFinite Infinity = False"
| "isFinite NegInfinity = False"

text \<open>\<^verbatim>\<open>x < 0\<close> on numbers (false for \<^verbatim>\<open>NaN\<close>).\<close>

fun num_negative :: "jsnum \<Rightarrow> bool" where
  "num_negative (Num q) = (q < 0)"
| "num_negative NaN = False"
| "num_negative Infinity = False"
| "num_negative NegInfinity = True"

subsection \<open>Whitespace and trimming\<close>

text \<open>
  \<^verbatim>\<open>String.prototype.trim\<close> and the regular expression class \<^verbatim>\<open>\s\<close> use the same set:
  the ECMAScript WhiteSpace and LineTerminator code points. Those below U+0100 are
  TAB, LF, VT, FF, CR, SPACE and NO-BREAK SPACE.
\<close>

definition is_space :: "char \<Rightarrow> bool" where
  "is_space c \<longleftrightarrow>
     c \<in> set [CHR 0x09, CHR 0x0A, CHR 0x0B, CHR 0x0C, CHR 0x0D, CHR 0x20, CHR 0xA0]"

definition trim :: "string \<Rightarrow> string" where
  "trim s = rev (dropWhile is_space (rev (dropWhile is_space s)))"

subsection \<open>Own properties of an object\<close>

text \<open>
  An object is the list of its own enumerable string-keyed properties in the order
  \<^verbatim>\<open>Object.keys\<close> / \<^verbatim>\<open>Object.entries\<close> enumerate them: array indices (canonical
  decimal strings below \<open>2^32 - 1\<close>) first, in ascending numeric order, then every other
  key in creation order.
\<close>

definition is_digit :: "char \<Rightarrow> bool" where
  "is_digit c \<longleftrightarrow> (of_char c :: nat) \<ge> 48 \<and> (of_char c :: nat) \<le> 57"

definition digits_value :: "string \<Rightarrow> nat" where
  "digits_value s = foldl (\<lambda>n c. 10 * n + ((of_char c :: nat) - 48)) 0 s"

definition is_array_index :: "string \<Rightarrow> bool" where
  "is_array_index s \<longleftrightarrow>
     s \<noteq> [] \<and> list_all is_digit s \<and> (s = ''0'' \<or> hd s \<noteq> CHR ''0'')
       \<and> digits_value s < 2 ^ 32 - 1"

text \<open>The place of a new array-index key among the properties already there.\<close>

fun insert_index :: "string \<Rightarrow> 'v \<Rightarrow> (string \<times> 'v) list \<Rightarrow> (string \<times> 'v) list" where
  "insert_index k v [] = [(k, v)]"
| "insert_index k v ((k', v') # ps) =
     (if is_array_index k' \<and> digits_value k' < digits_value k
      then (k', v') # insert_index k v ps
      else (k, v) # (k', v') # ps)"

text \<open>
  \<^verbatim>\<open>CreateDataProperty\<close>: what an object literal (\<^verbatim>\<open>{...o, [k]: v}\<close>) does for each
  property. An existing key keeps its place and takes the new value.
\<close>

definition js_define :: "string \<Rightarrow> 'v \<Rightarrow> (string \<times> 'v) list \<Rightarrow> (string \<times> 'v) list" where
  "js_define k v ps =
     (if k \<in> fst ` set ps then map (\<lambda>(k', v'). if k' = k then (k', v) else (k', v')) ps
      else if is_array_index k then insert_index k v ps
      else ps @ [(k, v)])"

text \<open>
  The assignment \<^verbatim>\<open>o[k] = v\<close> on an ordinary object whose prototype chain ends in
  \<^verbatim>\<open>Object.prototype\<close>. For the key \<^verbatim>\<open>"__proto__"\<close> the assignment runs the accessor of
  \<^verbatim>\<open>Object.prototype\<close>, which creates no own property.
\<close>

definition js_assign :: "string \<Rightarrow> 'v \<Rightarrow> (string \<times> 'v) list \<Rightarrow> (string \<times> 'v) list" where
  "js_assign k v ps = (if k = ''__proto__'' then ps else js_define k v ps)"

text \<open>The object spread \<^verbatim>\<open>{ ...o }\<close>: a new object, each own property defined in turn.\<close>

definition js_spread :: "(string \<times> 'v) list \<Rightarrow> (string \<times> 'v) list" where
  "js_spread ps = fold (\<lambda>(k, v) acc. js_define k v acc) ps []"

text \<open>\<^verbatim>\<open>delete o[k]\<close>.\<close>

definition js_delete :: "string \<Rightarrow> (string \<times> 'v) list \<Rightarrow> (string \<times> 'v) list" where
  "js_delete k ps = filter (\<lambda>(k', v'). k' \<noteq> k) ps"

subsection \<open>Reading untrusted values\<close>

text \<open>
  The guard \<^verbatim>\<open>!value || typeof value !== "object"\<close> lets through exactly the objects and the
  arrays (\<^verbatim>\<open>null\<close> is falsy).
\<close>

fun is_object :: "jsval \<Rightarrow> bool" where
  "is_object (JObj ps) = True"
| "is_object (JArr xs) = True"
| "is_object v = False"

text \<open>The decimal key of an array element.\<close>

fun index_key :: "nat \<Rightarrow> string" where
  "index_key n =
     (if n < 10 then [char_of (48 + n)]
      else index_key (n div 10) @ [char_of (48 + n mod 10)])"

text \<open>\<^verbatim>\<open>Object.entries(value)\<close> for a value that passed the guard.\<close>

fun object_entries :: "jsval \<Rightarrow> (string \<times> jsval) list" where
  "object_entries (JObj ps) = ps"
| "object_entries (JArr xs) = zip (map index_key [0..<length xs]) xs"
| "object_entries v = []"

text \<open>
  The property reads \<^verbatim>\<open>obj.title\<close>, \<^verbatim>\<open>obj.mtime\<close>, \<^verbatim>\<open>obj.lastUsed\<close>, \<^verbatim>\<open>obj.keywords\<close> and
  \<^verbatim>\<open>obj.description\<close>: the own property of an object, and \<^verbatim>\<open>undefined\<close> otherwise (neither
  \<^verbatim>\<open>Object.prototype\<close> nor \<^verbatim>\<open>Array.prototype\<close> has a property of one of these names, and
  none of them is an array index).
\<close>

fun js_get :: "jsval \<Rightarrow> string \<Rightarrow> jsval" where
  "js_get (JObj ps) name = (case map_of ps name of Some v \<Rightarrow> v | None \<Rightarrow> JUndefined)"
| "js_get v name = JUndefined"

section \<open>The title cache (src/ollama/cache.ts)\<close>

text \<open>
  \<^verbatim>\<open>{ mtime: number; title: string }\<close>, the type of the \<^verbatim>\<open>entry\<close> argument of an upsert, and
  \<^verbatim>\<open>OllamaTitleCacheEntry\<close>, which adds the optional \<^verbatim>\<open>lastUsed\<close> (\<open>None\<close> when it is absent
  or \<^verbatim>\<open>undefined\<close>).
\<close>

record TitleEntry =
  mtime :: jsnum
  title :: string

record OllamaTitleCacheEntry = TitleEntry +
  lastUsed :: "jsnum option"

type_synonym OllamaTitleCache = "(string \<times> OllamaTitleCacheEntry) list"

text \<open>
  The sort key of \<^verbatim>\<open>pruneOllamaTitleCache\<close>: \<^verbatim>\<open>cache[k]?.lastUsed\<close> when it is a finite
  number, and 0 otherwise.
\<close>

fun sortable_lastUsed :: "OllamaTitleCacheEntry option \<Rightarrow> rat" where
  "sortable_lastUsed None = 0"
| "sortable_lastUsed (Some e) =
     (case lastUsed e of Some (Num q) \<Rightarrow> q | _ \<Rightarrow> 0)"

text \<open>
  \<^verbatim>\<open>pruneOllamaTitleCache(cache, maxEntries)\<close>. \<open>maxEntries\<close> is \<open>None\<close> when the argument is
  absent. \<^verbatim>\<open>Array.prototype.sort\<close> is stable and the comparator
  \<^verbatim>\<open>a.lastUsed - b.lastUsed\<close> orders finite numbers, so the sorted array is
  \<^term>\<open>sort_key snd sortable\<close>. \<^verbatim>\<open>slice(0, n)\<close> truncates \<open>n\<close> to an integer; the
  difference \<^verbatim>\<open>keys.length - max\<close> is exact in doubles for an integer bound. For a
  bound that is not an integer the doubles round the difference and the rational
  difference used here does not follow them (at the bound \<open>2\<^sup>-\<^sup>6\<^sup>0\<close> and one entry the
  doubles give 1, the rationals a number below 1); the theorems that count evictions
  take an integer bound.
\<close>

definition pruneOllamaTitleCache :: "OllamaTitleCache \<Rightarrow> jsnum option \<Rightarrow> OllamaTitleCache" where
  "pruneOllamaTitleCache cache maxEntries =
     (case maxEntries of
        None \<Rightarrow> cache
      | Some NaN \<Rightarrow> cache
      | Some NegInfinity \<Rightarrow> cache
      | Some Infinity \<Rightarrow> cache
      | Some (Num mx) \<Rightarrow>
          if mx \<le> 0 then cache
          else
            let keys = map fst cache in
            if of_nat (length keys) \<le> mx then cache
            else
              let sortable = map (\<lambda>k. (k, sortable_lastUsed (map_of cache k))) keys;
                  sorted = sort_key snd sortable;
                  toDelete = take (nat \<lfloor>of_nat (length keys) - mx\<rfloor>) sorted
              in if toDelete = [] then cache
                 else fold (\<lambda>(key, _) next. js_delete key next) toDelete (js_spread cache))"

text \<open>
  The body of the loop of \<^verbatim>\<open>sanitizeOllamaTitleCache\<close> for one raw value: the entry it
  stores, or \<open>None\<close> where the loop says \<^verbatim>\<open>continue\<close>.
\<close>

definition sanitized_entry :: "jsval \<Rightarrow> OllamaTitleCacheEntry option" where
  "sanitized_entry raw =
     (if \<not> is_object raw then None
      else
        case js_get raw ''title'' of
          JStr t \<Rightarrow>
            if trim t = [] then None
            else
              let m = (case js_get raw ''mtime'' of JNum n \<Rightarrow> n | _ \<Rightarrow> NaN) in
              if \<not> isFinite m \<or> num_negative m then None
              else
                Some \<lparr>mtime = m, title = t,
                      lastUsed =
                        (case js_get raw ''lastUsed'' of
                           JNum n \<Rightarrow> if isFinite n then Some n else None
                         | _ \<Rightarrow> None)\<rparr>
        | _ \<Rightarrow> None)"

definition sanitizeOllamaTitleCache :: "jsval \<Rightarrow> OllamaTitleCache" where
  "sanitizeOllamaTitleCache v =
     (if \<not> is_object v then []
      else
        fold (\<lambda>(key, raw) out.
                case sanitized_entry raw of
                  None \<Rightarrow> out
                | Some e \<Rightarrow> js_assign key e out)
             (object_entries v) [])"

text \<open>
  \<^verbatim>\<open>upsertOllamaTitleCacheEntry(args)\<close>, the fields of \<open>args\<close> as parameters. \<open>date_now\<close> is
  what \<^verbatim>\<open>Date.now()\<close> returns (an integral number of milliseconds), read only when
  \<open>nowMs\<close> is absent; \<open>cache\<close> is \<open>None\<close> when \<^verbatim>\<open>args.cache\<close> is \<^verbatim>\<open>null\<close> or \<^verbatim>\<open>undefined\<close>.
\<close>

definition upsertOllamaTitleCacheEntry ::
  "int \<Rightarrow> OllamaTitleCache option \<Rightarrow> string \<Rightarrow> TitleEntry \<Rightarrow> jsnum option \<Rightarrow> jsnum option
     \<Rightarrow> OllamaTitleCache" where
  "upsertOllamaTitleCacheEntry date_now cache filePath entry maxEntries nowMs =
     (let now = (case nowMs of None \<Rightarrow> Num (of_int date_now) | Some n \<Rightarrow> n);
          next = js_define filePath
                   \<lparr>mtime = mtime entry, title = title entry, lastUsed = Some now\<rparr>
                   (js_spread (case cache of None \<Rightarrow> [] | Some c \<Rightarrow> c))
      in pruneOllamaTitleCache next maxEntries)"

text \<open>
  A cache seen as a plain value again (what is written to storage and read back): each
  entry an object of its three fields.
\<close>

definition entry_value :: "OllamaTitleCacheEntry \<Rightarrow> jsval" where
  "entry_value e =
     JObj [(''mtime'', JNum (mtime e)), (''title'', JStr (title e)),
           (''lastUsed'', case lastUsed e of None \<Rightarrow> JUndefined | Some n \<Rightarrow> JNum n)]"

definition cache_value :: "OllamaTitleCache \<Rightarrow> jsval" where
  "cache_value cache = JObj (map (\<lambda>(k, e). (k, entry_value e)) cache)"

section \<open>Title parts (src/ollama/title.ts)\<close>

subsection \<open>String helpers\<close>

text \<open>\<^verbatim>\<open>text.split(/\r?\n/)\<close>: a line ends at a line feed, with the carriage return before it.\<close>

fun split_lines :: "string \<Rightarrow> string list" where
  "split_lines [] = [[]]"
| "split_lines (c # cs) =
     (if c = CHR 0x0A then [] # split_lines cs
      else if c = CHR 0x0D \<and> cs \<noteq> [] \<and> hd cs = CHR 0x0A then [] # split_lines (tl cs)
      else (case split_lines cs of l # ls \<Rightarrow> (c # l) # ls | [] \<Rightarrow> [[c]]))"

text \<open>\<^verbatim>\<open>xs.join(sep)\<close>.\<close>

fun join :: "string \<Rightarrow> string list \<Rightarrow> string" where
  "join sep [] = []"
| "join sep [x] = x"
| "join sep (x # y # ys) = x @ sep @ join sep (y # ys)"

text \<open>\<^verbatim>\<open>s.split(" ")\<close> for a one-character separator.\<close>

fun split_on :: "char \<Rightarrow> string \<Rightarrow> string list" where
  "split_on sep [] = [[]]"
| "split_on sep (c # cs) =
     (if c = sep then [] # split_on sep cs
      else (case split_on sep cs of l # ls \<Rightarrow> (c # l) # ls | [] \<Rightarrow> [[c]]))"

text \<open>
  \<^verbatim>\<open>s.replace(/[...]+/g, r)\<close> for a character class: every maximal run of characters of the
  class becomes \<open>r\<close>.
\<close>

function replace_runs :: "(char \<Rightarrow> bool) \<Rightarrow> string \<Rightarrow> string \<Rightarrow> string" where
  "replace_runs P r [] = []"
| "replace_runs P r (c # cs) =
     (if P c then r @ replace_runs P r (dropWhile P cs) else c # replace_runs P r cs)"
  by pat_completeness auto
termination
  by (relation "measure (\<lambda>(P, r, s). length s)") (auto simp: length_dropWhile_le less_Suc_eq_le)

text \<open>The classes \<^verbatim>\<open>[\r\n\t]\<close>, \<^verbatim>\<open>[\p{L}\p{N}]\<close> (below U+0100) and \<^verbatim>\<open>[.!?]\<close>.\<close>

definition is_crlf_tab :: "char \<Rightarrow> bool" where
  "is_crlf_tab c \<longleftrightarrow> c \<in> set [CHR 0x0D, CHR 0x0A, CHR 0x09]"

definition is_letter_or_number :: "char \<Rightarrow> bool" where
  "is_letter_or_number c \<longleftrightarrow>
     (let n = (of_char c :: nat) in
        (65 \<le> n \<and> n \<le> 90) \<or> (97 \<le> n \<and> n \<le> 122) \<or> n = 170 \<or> n = 181 \<or> n = 186
        \<or> (192 \<le> n \<and> n \<le> 214) \<or> (216 \<le> n \<and> n \<le> 246) \<or> (248 \<le> n \<and> n \<le> 255)
        \<or> (48 \<le> n \<and> n \<le> 57) \<or> n = 178 \<or> n = 179 \<or> n = 185 \<or> (188 \<le> n \<and> n \<le> 190))"

definition is_terminal_mark :: "char \<Rightarrow> bool" where
  "is_terminal_mark c \<longleftrightarrow> c \<in> set [CHR ''.'', CHR ''!'', CHR ''?'']"

subsection \<open>The functions\<close>

definition stripYamlFrontmatter :: "string \<Rightarrow> string" where
  "stripYamlFrontmatter text =
     (if text = [] then []
      else
        let lines = split_lines text in
        if length lines < 3 \<or> trim (hd lines) \<noteq> ''---'' then text
        else
          (case dropWhile (\<lambda>l. trim l \<noteq> ''---'') (tl lines) of
             [] \<Rightarrow> text
           | fence # rest \<Rightarrow> join [CHR 0x0A] rest))"

definition sanitizeWord :: "string \<Rightarrow> string" where
  "sanitizeWord word =
     (let cleaned =
            replace_runs is_space '' ''
              (rev (dropWhile (\<lambda>c. \<not> is_letter_or_number c)
                 (rev (dropWhile (\<lambda>c. \<not> is_letter_or_number c)
                    (trim (replace_runs is_crlf_tab '' '' word))))))
      in case split_on CHR '' '' cleaned of [] \<Rightarrow> [] | w # ws \<Rightarrow> w)"

definition sanitizeDescription :: "string \<Rightarrow> string" where
  "sanitizeDescription desc =
     (let s0 = trim (replace_runs is_crlf_tab '' '' desc);
          s1 = replace_runs is_space '' '' s0;
          s2 = (if length s1 > 120 then trim (take 120 s1) else s1)
      in if length (takeWhile is_terminal_mark (rev s2)) \<ge> 2
         then rev (dropWhile is_terminal_mark (rev s2)) @ ''.''
         else s2)"

record DailyTitleParts =
  "keywords" :: "string list"
  description :: string

definition parseDailyTitleParts :: "jsval \<Rightarrow> DailyTitleParts option" where
  "parseDailyTitleParts v =
     (if \<not> is_object v then None
      else
        case (js_get v ''keywords'', js_get v ''description'') of
          (JArr rawKeywords, JStr rawDescription) \<Rightarrow>
            let words = filter (\<lambda>w. w \<noteq> [])
                          (map (\<lambda>k. case k of JStr s \<Rightarrow> sanitizeWord s | _ \<Rightarrow> []) rawKeywords)
            in if length words < 3 then None
               else
                 let kws = take 3 words;
                     d = sanitizeDescription rawDescription
                 in if d = [] then None else Some \<lparr>keywords = kws, description = d\<rparr>
        | _ \<Rightarrow> None)"

section \<open>Colour tags (src/listItemColorTags.ts)\<close>

text \<open>
  A regular expression anchored at both ends whose atoms are single character classes
  matches a string exactly when the two have the same length and each character is in
  its class.
\<close>

definition matches_classes :: "(char \<Rightarrow> bool) list \<Rightarrow> string \<Rightarrow> bool" where
  "matches_classes cls s \<longleftrightarrow> list_all2 (\<lambda>P c. P c) cls s"

text \<open>\<^verbatim>\<open>/^day:\d{4}-\d{2}-\d{2}$/\<close>; \<^verbatim>\<open>\d\<close> is the ASCII digits.\<close>

definition DAY_KEY_RE :: "string \<Rightarrow> bool" where
  "DAY_KEY_RE s \<longleftrightarrow>
     matches_classes
       (map (\<lambda>c d. d = c) ''day:'' @ replicate 4 is_digit @ [\<lambda>d. d = CHR ''-'']
          @ replicate 2 is_digit @ [\<lambda>d. d = CHR ''-''] @ replicate 2 is_digit) s"

text \<open>
  \<^verbatim>\<open>/^file:.+$/\<close>; without the \<^verbatim>\<open>s\<close> flag the dot matches no line terminator (LF and CR
  below U+0100), and without the \<^verbatim>\<open>m\<close> flag \<^verbatim>\<open>$\<close> is the end of the string.
\<close>

definition is_line_terminator :: "char \<Rightarrow> bool" where
  "is_line_terminator c \<longleftrightarrow> c \<in> set [CHR 0x0A, CHR 0x0D]"

definition FILE_KEY_RE :: "string \<Rightarrow> bool" where
  "FILE_KEY_RE s \<longleftrightarrow>
     take 5 s = ''file:'' \<and> drop 5 s \<noteq> [] \<and> list_all (\<lambda>c. \<not> is_line_terminator c) (drop 5 s)"

text \<open>\<^verbatim>\<open>/^#(?:[0-9a-fA-F]{3}|[0-9a-fA-F]{6})$/\<close>.\<close>

definition is_hex_digit :: "char \<Rightarrow> bool" where
  "is_hex_digit c \<longleftrightarrow>
     (let n = (of_char c :: nat) in
        (48 \<le> n \<and> n \<le> 57) \<or> (97 \<le> n \<and> n \<le> 102) \<or> (65 \<le> n \<and> n \<le> 70))"

definition HEX_COLOR_RE :: "string \<Rightarrow> bool" where
  "HEX_COLOR_RE s \<longleftrightarrow>
     matches_classes ((\<lambda>d. d = CHR ''#'') # replicate 3 is_hex_digit) s
     \<or> matches_classes ((\<lambda>d. d = CHR ''#'') # replicate 6 is_hex_digit) s"

text \<open>Called on a string that matched \<^verbatim>\<open>/^#[0-9a-fA-F]{3}$/\<close>, so the three reads are in range.\<close>

definition expandHex3ToHex6 :: "string \<Rightarrow> string" where
  "expandHex3ToHex6 hex3 =
     (let r = hex3 ! 1; g = hex3 ! 2; b = hex3 ! 3 in [CHR ''#'', r, r, g, g, b, b])"

text \<open>\<^verbatim>\<open>toLowerCase\<close> on code units below U+0100: A-Z and the upper-case letters U+00C0..U+00DE.\<close>

definition to_lower_char :: "char \<Rightarrow> char" where
  "to_lower_char c =
     (let n = (of_char c :: nat) in
        if (65 \<le> n \<and> n \<le> 90) \<or> (192 \<le> n \<and> n \<le> 222 \<and> n \<noteq> 215) then char_of (n + 32) else c)"

definition normalizeListItemColor :: "string \<Rightarrow> string" where
  "normalizeListItemColor input =
     (let s = trim input in
        if \<not> HEX_COLOR_RE s then []
        else map to_lower_char (if length s = 4 then expandHex3ToHex6 s else s))"

type_synonym ListItemColorTags = "(string \<times> string) list"

definition sanitizeListItemColorTags :: "jsval \<Rightarrow> ListItemColorTags" where
  "sanitizeListItemColorTags v =
     (if \<not> is_object v then []
      else
        fold (\<lambda>(rawKey, rawVal) out.
                let key = trim rawKey in
                if key = [] then out
                else if \<not> (DAY_KEY_RE key \<or> FILE_KEY_RE key) then out
                else
                  case rawVal of
                    JStr str \<Rightarrow>
                      let color = normalizeListItemColor str in
                      if color = [] then out else js_assign key color out
                  | _ \<Rightarrow> out)
             (object_entries v) [])"

section \<open>The cache operations on a store\<close>

text \<open>
  Whether an operation mutates its argument, and whether it returns the object it was
  given, is a matter of object identity. Here the objects live in a store: an address
  is an index into the list of the objects allocated so far, an object is the list of
  its own properties, and a property holds a primitive or the address of an object (an
  array is the object of its index keys). Allocation appends to the store; an
  assignment or a \<^verbatim>\<open>delete\<close> replaces the object at its address.
\<close>

type_synonym addr = nat

datatype hval = HUndefined | HNull | HBool bool | HNum jsnum | HStr string | HRef addr

type_synonym store = "(string \<times> hval) list list"

definition alloc :: "store \<Rightarrow> (string \<times> hval) list \<Rightarrow> store \<times> addr" where
  "alloc h ps = (h @ [ps], length h)"

fun is_ref :: "hval \<Rightarrow> bool" where
  "is_ref (HRef a) = True"
| "is_ref v = False"

text \<open>The own properties of a value: none for a primitive.\<close>

definition props :: "store \<Rightarrow> hval \<Rightarrow> (string \<times> hval) list" where
  "props h v = (case v of HRef a \<Rightarrow> if a < length h then h ! a else [] | _ \<Rightarrow> [])"

definition h_get :: "store \<Rightarrow> hval \<Rightarrow> string \<Rightarrow> hval" where
  "h_get h v name = (case map_of (props h v) name of Some x \<Rightarrow> x | None \<Rightarrow> HUndefined)"

text \<open>
  One round of the loop of \<^verbatim>\<open>sanitizeOllamaTitleCache\<close>: the entry literal allocates a new
  object, and the assignment \<^verbatim>\<open>out[key] = ...\<close> changes the object at \<open>out\<close>.
\<close>

definition sanitize_step_store :: "addr \<Rightarrow> string \<times> hval \<Rightarrow> store \<Rightarrow> store" where
  "sanitize_step_store out p h =
     (case p of (key, raw) \<Rightarrow>
        if \<not> is_ref raw then h
        else
          case h_get h raw ''title'' of
            HStr t \<Rightarrow>
              if trim t = [] then h
              else
                let m = (case h_get h raw ''mtime'' of HNum n \<Rightarrow> n | _ \<Rightarrow> NaN) in
                if \<not> isFinite m \<or> num_negative m then h
                else
                  let lu = (case h_get h raw ''lastUsed'' of
                              HNum n \<Rightarrow> if isFinite n then HNum n else HUndefined
                            | _ \<Rightarrow> HUndefined);
                      (h1, e) = alloc h [(''mtime'', HNum m), (''title'', HStr t), (''lastUsed'', lu)]
                  in h1[out := js_assign key (HRef e) (h1 ! out)]
          | _ \<Rightarrow> h)"

text \<open>
  \<^verbatim>\<open>sanitizeOllamaTitleCache(value)\<close>: the new store and the address of the object
  returned. \<^verbatim>\<open>Object.entries(obj)\<close> is read once, before the loop.
\<close>

definition sanitizeOllamaTitleCache_store :: "store \<Rightarrow> hval \<Rightarrow> store \<times> addr" where
  "sanitizeOllamaTitleCache_store h v =
     (if \<not> is_ref v then alloc h []
      else
        let (h1, out) = alloc h [] in
        (fold (sanitize_step_store out) (props h v) h1, out))"

text \<open>The sort key \<^verbatim>\<open>cache[k]?.lastUsed\<close> read through the store.\<close>

definition sortable_lastUsed_store :: "store \<Rightarrow> hval option \<Rightarrow> rat" where
  "sortable_lastUsed_store h e =
     (case e of
        Some v \<Rightarrow> (case h_get h v ''lastUsed'' of HNum (Num q) \<Rightarrow> q | _ \<Rightarrow> 0)
      | None \<Rightarrow> 0)"

text \<open>
  \<^verbatim>\<open>pruneOllamaTitleCache(cache, maxEntries)\<close>: \<^verbatim>\<open>return cache\<close> returns the address it
  was given and leaves the store as it is; \<^verbatim>\<open>{ ...cache }\<close> allocates, and each
  \<^verbatim>\<open>delete next[key]\<close> changes the object at \<open>next\<close>.
\<close>

definition pruneOllamaTitleCache_store :: "store \<Rightarrow> addr \<Rightarrow> jsnum option \<Rightarrow> store \<times> addr" where
  "pruneOllamaTitleCache_store h cache maxEntries =
     (case maxEntries of
        None \<Rightarrow> (h, cache)
      | Some NaN \<Rightarrow> (h, cache)
      | Some NegInfinity \<Rightarrow> (h, cache)
      | Some Infinity \<Rightarrow> (h, cache)
      | Some (Num mx) \<Rightarrow>
          if mx \<le> 0 then (h, cache)
          else
            let keys = map fst (props h (HRef cache)) in
            if of_nat (length keys) \<le> mx then (h, cache)
            else
              let sortable = map (\<lambda>k. (k, sortable_lastUsed_store h
                                            (map_of (props h (HRef cache)) k))) keys;
                  sorted = sort_key snd sortable;
                  toDelete = take (nat \<lfloor>of_nat (length keys) - mx\<rfloor>) sorted
              in if toDelete = [] then (h, cache)
                 else
                   let (h1, next) = alloc h (js_spread (props h (HRef cache))) in
                   (fold (\<lambda>(key, _) h'. h'[next := js_delete key (h' ! next)]) toDelete h1, next))"

text \<open>
  \<^verbatim>\<open>upsertOllamaTitleCacheEntry(args)\<close>: \<open>cache\<close> is the address of \<^verbatim>\<open>args.cache\<close>, or \<open>None\<close>
  when it is \<^verbatim>\<open>null\<close> or \<^verbatim>\<open>undefined\<close>. The object literal allocates \<open>next\<close> and
  copies the cache into it, allocates the entry, and defines the entry under the key.
\<close>

definition upsertOllamaTitleCacheEntry_store ::
  "int \<Rightarrow> store \<Rightarrow> addr option \<Rightarrow> string \<Rightarrow> TitleEntry \<Rightarrow> jsnum option \<Rightarrow> jsnum option
     \<Rightarrow> store \<times> addr" where
  "upsertOllamaTitleCacheEntry_store date_now h cache filePath entry maxEntries nowMs =
     (let now = (case nowMs of None \<Rightarrow> Num (of_int date_now) | Some n \<Rightarrow> n);
          (h1, next) = alloc h (js_spread (case cache of None \<Rightarrow> [] | Some c \<Rightarrow> props h (HRef c)));
          (h2, e) = alloc h1 [(''mtime'', HNum (mtime entry)), (''title'', HStr (title entry)),
                              (''lastUsed'', HNum now)];
          h3 = h2[next := js_define filePath (HRef e) (h2 ! next)]
      in pruneOllamaTitleCache_store h3 next maxEntries)"

text \<open>
  The cache an address holds, read out of the store as the value the functions of the
  previous sections work on. A field of the wrong type reads as the value the code
  treats it as (\<^verbatim>\<open>NaN\<close>, the empty title, no \<open>lastUsed\<close>).
\<close>

definition entry_view :: "store \<Rightarrow> hval \<Rightarrow> OllamaTitleCacheEntry" where
  "entry_view h v =
     \<lparr>mtime = (case h_get h v ''mtime'' of HNum n \<Rightarrow> n | _ \<Rightarrow> NaN),
      title = (case h_get h v ''title'' of HStr t \<Rightarrow> t | _ \<Rightarrow> []),
      lastUsed = (case h_get h v ''lastUsed'' of HNum n \<Rightarrow> Some n | _ \<Rightarrow> None)\<rparr>"

definition cache_view :: "store \<Rightarrow> addr \<Rightarrow> OllamaTitleCache" where
  "cache_view h c = map (\<lambda>(k, v). (k, entry_view h v)) (props h (HRef c))"

text \<open>
  An untrusted value read out of the store, to the depth the sanitizer reads it: the
  value, its properties (the raw entries), and the fields of each raw entry. A field
  that is itself an object is shown as an object without properties, which is all the
  sanitizer asks of it.
\<close>

fun field_view :: "hval \<Rightarrow> jsval" where
  "field_view HUndefined = JUndefined"
| "field_view HNull = JNull"
| "field_view (HBool b) = JBool b"
| "field_view (HNum n) = JNum n"
| "field_view (HStr s) = JStr s"
| "field_view (HRef a) = JObj []"

definition raw_view :: "store \<Rightarrow> hval \<Rightarrow> jsval" where
  "raw_view h v =
     (if is_ref v then JObj (map (\<lambda>(k, x). (k, field_view x)) (props h v)) else field_view v)"

definition value_view :: "store \<Rightarrow> hval \<Rightarrow> jsval" where
  "value_view h v =
     (if is_ref v then JObj (map (\<lambda>(k, x). (k, raw_view h x)) (props h v)) else field_view v)"

section \<open>Properties of the object operations\<close>

lemma js_delete_keys: "fst ` set (js_delete k ps) = fst ` set ps - {k}"
  by (induction ps) (auto simp: js_delete_def)

lemma js_delete_subset: "set (js_delete k ps) \<subseteq> set ps"
  by (auto simp: js_delete_def)

lemma js_delete_distinct: "distinct (map fst ps) \<Longrightarrow> distinct (map fst (js_delete k ps))"
  by (simp add: js_delete_def distinct_map_filter)

lemma fold_js_delete:
  "fold (\<lambda>(key, _) next. js_delete key next) ds ps = filter (\<lambda>(k, v). k \<notin> fst ` set ds) ps"
proof (induction ds arbitrary: ps)
  case Nil
  then show ?case by simp
next
  case (Cons d ds)
  obtain dk dv where d: "d = (dk, dv)" by (cases d)
  have "filter (\<lambda>(k, v). k \<notin> fst ` set ds) (js_delete dk ps)
        = filter (\<lambda>(k, v). k \<notin> fst ` set (d # ds)) ps"
    unfolding js_delete_def d filter_filter
    by (rule filter_cong) auto
  with Cons show ?case by (simp add: d)
qed

lemma insert_index_set: "set (insert_index k v ps) = insert (k, v) (set ps)"
  by (induction k v ps rule: insert_index.induct) (simp_all add: insert_commute)

lemma insert_index_length: "length (insert_index k v ps) = Suc (length ps)"
  by (induction k v ps rule: insert_index.induct) simp_all

lemma map_fst_update: "map fst (map (\<lambda>(k', v'). if k' = k then (k', v) else (k', v')) ps) = map fst ps"
  by (induction ps) auto

lemma js_define_keys: "fst ` set (js_define k v ps) = insert k (fst ` set ps)"
proof (cases "k \<in> fst ` set ps")
  case True
  have "fst ` set (map (\<lambda>(k', v'). if k' = k then (k', v) else (k', v')) ps) = fst ` set ps"
    using map_fst_update [of k v ps] by (metis set_map)
  with True show ?thesis by (simp add: js_define_def insert_absorb del: set_map map_map)
next
  case False
  then show ?thesis by (simp add: js_define_def insert_index_set)
qed

lemma insert_index_distinct:
  "k \<notin> fst ` set ps \<Longrightarrow> distinct (map fst ps) \<Longrightarrow> distinct (map fst (insert_index k v ps))"
  by (induction k v ps rule: insert_index.induct) (auto simp: insert_index_set image_iff)

lemma js_define_distinct:
  "distinct (map fst ps) \<Longrightarrow> distinct (map fst (js_define k v ps))"
  unfolding js_define_def
  by (auto simp: map_fst_update insert_index_distinct simp del: map_map)

lemma insert_index_map_of:
  "k \<notin> fst ` set ps \<Longrightarrow> map_of (insert_index k v ps) = (map_of ps)(k \<mapsto> v)"
  by (induction k v ps rule: insert_index.induct) (auto simp: fun_eq_iff)

lemma update_map_of:
  "map_of (map (\<lambda>(k', v'). if k' = k then (k', v) else (k', v')) ps) x
     = (if x = k \<and> map_of ps k \<noteq> None then Some v else map_of ps x)"
  by (induction ps) auto

lemma js_define_map_of: "map_of (js_define k v ps) = (map_of ps)(k \<mapsto> v)"
proof (rule ext)
  fix x
  show "map_of (js_define k v ps) x = ((map_of ps)(k \<mapsto> v)) x"
  proof (cases "k \<in> fst ` set ps")
    case True
    then have "map_of ps k \<noteq> None" by (simp add: map_of_eq_None_iff)
    with True show ?thesis by (simp add: js_define_def update_map_of del: map_map)
  next
    case False
    then have "map_of ps k = None" by (simp add: map_of_eq_None_iff)
    with False show ?thesis
      by (simp add: js_define_def insert_index_map_of map_add_def split: option.splits)
  qed
qed


lemma fold_define_keys:
  "fst ` set (fold (\<lambda>(k, v) acc. js_define k v acc) ps acc) = fst ` set acc \<union> fst ` set ps"
proof (induction ps arbitrary: acc)
  case Nil
  show ?case by simp
next
  case (Cons p ps)
  obtain k v where p: "p = (k, v)" by (cases p)
  have "fst ` set (fold (\<lambda>(k, v) acc. js_define k v acc) ps (js_define k v acc))
          = fst ` set (js_define k v acc) \<union> fst ` set ps"
    by (rule Cons.IH)
  then show ?case by (simp add: p js_define_keys)
qed

lemma fold_define_distinct:
  "distinct (map fst acc) \<Longrightarrow> distinct (map fst (fold (\<lambda>(k, v) acc. js_define k v acc) ps acc))"
  by (induction ps arbitrary: acc) (auto simp: js_define_distinct)

lemma fold_define_map_of:
  "map_of (fold (\<lambda>(k, v) acc. js_define k v acc) ps acc) = map_of acc ++ map_of (rev ps)"
  by (induction ps arbitrary: acc) (auto simp: js_define_map_of)

lemma js_spread_distinct: "distinct (map fst (js_spread ps))"
  by (simp add: js_spread_def fold_define_distinct)

lemma js_spread_set:
  assumes "distinct (map fst ps)"
  shows "set (js_spread ps) = set ps"
proof -
  have "distinct (map fst (rev ps))" using assms by (simp add: rev_map [symmetric])
  moreover have "map_of (js_spread ps) = map_of (rev ps)"
    by (simp add: js_spread_def fold_define_map_of)
  ultimately have "set (js_spread ps) = set (rev ps)"
    using js_spread_distinct map_of_inject_set by blast
  then show ?thesis by simp
qed

lemma distinct_keys_length:
  "distinct (map fst ps) \<Longrightarrow> length ps = card (fst ` set ps)"
  by (metis distinct_card length_map set_map)


lemma sortable_keys:
  "map fst (map (\<lambda>k. (k, sortable_lastUsed (map_of cache k))) ks) = ks"
  by (induction ks) simp_all

lemma sorted_entry_shape:
  assumes "p \<in> set (sort_key snd (map (\<lambda>k. (k, sortable_lastUsed (map_of cache k))) ks))"
  shows "fst p \<in> set ks \<and> snd p = sortable_lastUsed (map_of cache (fst p))"
  using assms by auto

lemma sorted_keys_distinct:
  assumes "distinct ks"
  shows "distinct (map fst (sort_key snd (map (\<lambda>k. (k, sortable_lastUsed (map_of cache k))) ks)))"
proof -
  let ?xs = "map (\<lambda>k. (k, sortable_lastUsed (map_of cache k))) ks"
  have "distinct ?xs" using assms by (simp add: distinct_map inj_on_def)
  then have "distinct (sort_key snd ?xs)" by simp
  moreover have "inj_on fst (set (sort_key snd ?xs))"
    by (auto simp: inj_on_def)
  ultimately show ?thesis by (simp add: distinct_map)
qed

lemma sorted_keys_set:
  "fst ` set (sort_key snd (map (\<lambda>k. (k, sortable_lastUsed (map_of cache k))) ks)) = set ks"
  by (simp add: image_image)

lemma prune_evict_set:
  assumes dist: "distinct (map fst cache)" and pos: "0 < mx" and big: "mx < of_nat (length cache)"
  shows "set (pruneOllamaTitleCache cache (Some (Num mx)))
           = {p \<in> set cache. fst p \<notin> fst ` set (take (nat \<lfloor>of_nat (length cache) - mx\<rfloor>)
                 (sort_key snd (map (\<lambda>k. (k, sortable_lastUsed (map_of cache k))) (map fst cache))))}"
proof -
  let ?toDelete = "take (nat \<lfloor>of_nat (length cache) - mx\<rfloor>)
     (sort_key snd (map (\<lambda>k. (k, sortable_lastUsed (map_of cache k))) (map fst cache)))"
  show ?thesis
  proof (cases "?toDelete = []")
    case True
    then have same: "pruneOllamaTitleCache cache (Some (Num mx)) = cache"
      using pos big by (simp add: pruneOllamaTitleCache_def Let_def)
    show ?thesis unfolding same True by simp
  next
    case False
    then have evict: "pruneOllamaTitleCache cache (Some (Num mx))
                 = filter (\<lambda>(k, v). k \<notin> fst ` set ?toDelete) (js_spread cache)"
      using pos big by (simp add: pruneOllamaTitleCache_def Let_def fold_js_delete)
    show ?thesis unfolding evict set_filter js_spread_set [OF dist] by (simp add: split_beta)
  qed
qed

lemma prune_distinct:
  assumes "distinct (map fst cache)"
  shows "distinct (map fst (pruneOllamaTitleCache cache maxEntries))"
  using assms
  by (auto simp: pruneOllamaTitleCache_def Let_def fold_js_delete distinct_map_filter
        js_spread_distinct split: option.splits jsnum.splits)

lemma prune_subset:
  assumes "distinct (map fst cache)"
  shows "set (pruneOllamaTitleCache cache maxEntries) \<subseteq> set cache"
  using assms js_spread_set [OF assms]
  by (auto simp: pruneOllamaTitleCache_def Let_def fold_js_delete
        split: option.splits jsnum.splits)


lemma take_sorted_keys_card:
  assumes "distinct ks" "d \<le> length ks"
  shows "card (fst ` set (take d (sort_key snd (map (\<lambda>k. (k, sortable_lastUsed (map_of cache k))) ks)))) = d"
proof -
  let ?s = "sort_key snd (map (\<lambda>k. (k, sortable_lastUsed (map_of cache k))) ks)"
  have "distinct (take d (map fst ?s))"
    using sorted_keys_distinct [OF assms(1)] by (rule distinct_take)
  then have "card (set (take d (map fst ?s))) = length (take d (map fst ?s))"
    by (rule distinct_card)
  moreover have "fst ` set (take d ?s) = set (take d (map fst ?s))"
    by (simp add: take_map)
  ultimately show ?thesis using assms(2) by simp
qed

lemma prune_evict_length:
  assumes dist: "distinct (map fst cache)" and pos: "0 < mx" and big: "mx < of_nat (length cache)"
  shows "length (pruneOllamaTitleCache cache (Some (Num mx)))
           = length cache - nat \<lfloor>of_nat (length cache) - mx\<rfloor>"
proof -
  let ?d = "nat \<lfloor>of_nat (length cache) - mx\<rfloor>"
  let ?s = "sort_key snd (map (\<lambda>k. (k, sortable_lastUsed (map_of cache k))) (map fst cache))"
  let ?D = "fst ` set (take ?d ?s)"
  let ?R = "pruneOllamaTitleCache cache (Some (Num mx))"
  have "of_nat (length cache) - mx \<le> of_nat (length cache)" using pos by simp
  then have "\<lfloor>of_nat (length cache) - mx\<rfloor> \<le> int (length cache)"
    by (metis floor_mono floor_of_nat)
  then have dle: "?d \<le> length (map fst cache)" by simp
  have cardD: "card ?D = ?d"
    using take_sorted_keys_card [OF dist dle] .
  have "?D \<subseteq> fst ` set ?s" by (meson image_mono set_take_subset)
  then have sub: "?D \<subseteq> fst ` set cache"
    unfolding sorted_keys_set by simp
  have "set ?R = {p \<in> set cache. fst p \<notin> ?D}"
    by (rule prune_evict_set [OF dist pos big])
  then have "fst ` set ?R = fst ` set cache - ?D" by force
  then have "card (fst ` set ?R) = card (fst ` set cache) - card ?D"
    using sub by (simp add: card_Diff_subset finite_subset)
  then show ?thesis
    using distinct_keys_length [OF dist] distinct_keys_length [OF prune_distinct [OF dist]] cardD
    by simp
qed

section \<open>Properties of pruning\<close>

lemma sort_key_take_drop_le:
  assumes "x \<in> set (take d (sort_key f xs))" and "y \<in> set (drop d (sort_key f xs))"
  shows "f x \<le> f y"
proof -
  have "sorted (map f (take d (sort_key f xs) @ drop d (sort_key f xs)))"
    by (simp only: append_take_drop_id sorted_sort_key)
  then have "\<forall>a \<in> set (map f (take d (sort_key f xs))). \<forall>b \<in> set (map f (drop d (sort_key f xs))). a \<le> b"
    by (simp only: map_append sorted_append) blast
  moreover have "f x \<in> set (map f (take d (sort_key f xs)))" using assms(1) by (simp only: set_map) (rule imageI)
  moreover have "f y \<in> set (map f (drop d (sort_key f xs)))" using assms(2) by (simp only: set_map) (rule imageI)
  ultimately show ?thesis by blast
qed

lemma fst_image_pair: "k \<in> fst ` A \<Longrightarrow> \<exists>v. (k, v) \<in> A"
  by force

lemma prune_order:
  assumes dist: "distinct (map fst cache)" and pos: "0 < mx" and big: "mx < of_nat (length cache)"
    and kept: "(k, e) \<in> set (pruneOllamaTitleCache cache (Some (Num mx)))"
    and inp: "(k', e') \<in> set cache"
    and gone: "(k', e') \<notin> set (pruneOllamaTitleCache cache (Some (Num mx)))"
  shows "sortable_lastUsed (Some e') \<le> sortable_lastUsed (Some e)"
proof -
  let ?d = "nat \<lfloor>of_nat (length cache) - mx\<rfloor>"
  let ?s = "sort_key snd (map (\<lambda>k. (k, sortable_lastUsed (map_of cache k))) (map fst cache))"
  have R: "set (pruneOllamaTitleCache cache (Some (Num mx)))
             = {p \<in> set cache. fst p \<notin> fst ` set (take ?d ?s)}"
    by (rule prune_evict_set [OF dist pos big])
  from kept R have kc: "(k, e) \<in> set cache" and knd: "k \<notin> fst ` set (take ?d ?s)" by auto
  from gone inp R have "k' \<in> fst ` set (take ?d ?s)" by auto
  then have "\<exists>v'. (k', v') \<in> set (take ?d ?s)" by (rule fst_image_pair)
  then obtain v' where v': "(k', v') \<in> set (take ?d ?s)" ..
  then have "(k', v') \<in> set ?s" by (meson in_set_takeD)
  then have v'eq: "v' = sortable_lastUsed (map_of cache k')"
    using sorted_entry_shape [of "(k', v')" cache "map fst cache"] by simp
  have "k \<in> fst ` set ?s" unfolding sorted_keys_set using kc by force
  then have "\<exists>v. (k, v) \<in> set ?s" by (rule fst_image_pair)
  then obtain v where v: "(k, v) \<in> set ?s" ..
  then have veq: "v = sortable_lastUsed (map_of cache k)"
    using sorted_entry_shape [of "(k, v)" cache "map fst cache"] by simp
  have "set ?s = set (take ?d ?s) \<union> set (drop ?d ?s)"
    by (metis append_take_drop_id set_append)
  with v knd have "(k, v) \<in> set (drop ?d ?s)" by force
  with v' have "snd (k', v') \<le> snd (k, v)" by (rule sort_key_take_drop_le)
  moreover have "map_of cache k = Some e" using dist kc by simp
  moreover have "map_of cache k' = Some e'" using dist inp by simp
  ultimately show ?thesis using veq v'eq by simp
qed

lemma prune_same:
  "\<not> (mx < of_nat (length cache)) \<Longrightarrow> pruneOllamaTitleCache cache (Some (Num mx)) = cache"
  by (simp add: pruneOllamaTitleCache_def Let_def)

lemma prune_length_nat:
  assumes "distinct (map fst cache)" and "0 < n" and "n < length cache"
  shows "length (pruneOllamaTitleCache cache (Some (Num (of_nat n)))) = n"
proof -
  have "length (pruneOllamaTitleCache cache (Some (Num (of_nat n))))
          = length cache - nat \<lfloor>(of_nat (length cache) :: rat) - of_nat n\<rfloor>"
    using assms by (intro prune_evict_length) simp_all
  moreover have "\<lfloor>(of_nat (length cache) :: rat) - of_nat n\<rfloor> = int (length cache) - int n"
    by (metis floor_of_int of_int_diff of_int_of_nat_eq)
  then have "nat \<lfloor>(of_nat (length cache) :: rat) - of_nat n\<rfloor> = length cache - n"
    by (simp add: nat_diff_distrib')
  ultimately show ?thesis using assms by simp
qed

lemmas object_eval =
  js_spread_def js_define_def js_assign_def js_delete_def is_array_index_def is_digit_def

lemmas prune_eval = pruneOllamaTitleCache_def Let_def object_eval

section \<open>Properties of the upsert\<close>


lemma distinct_member_map_of:
  "distinct (map fst ps) \<Longrightarrow> (k, v) \<in> set ps \<longleftrightarrow> map_of ps k = Some v"
  by simp






section \<open>Properties of the sanitizer\<close>

text \<open>The keys \<^verbatim>\<open>Object.entries\<close> gives for an array are pairwise distinct.\<close>

lemma digits_value_snoc:
  "digits_value (s @ [c]) = 10 * digits_value s + ((of_char c :: nat) - 48)"
  by (simp add: digits_value_def)

lemma of_char_digit: "k < 10 \<Longrightarrow> (of_char (char_of (48 + k)) :: nat) = 48 + k"
  by simp

lemma digits_value_index_key: "digits_value (index_key n) = n"
proof (induction n rule: index_key.induct)
  case (1 n)
  show ?case
  proof (cases "n < 10")
    case True
    then show ?thesis
      using digits_value_snoc [of "[]" "char_of (48 + n)"]
      by (simp add: digits_value_def)
  next
    case False
    have "index_key n = index_key (n div 10) @ [char_of (48 + n mod 10)]"
      using False by (subst index_key.simps) simp
    then show ?thesis
      using "1.IH" [OF False] by (simp add: digits_value_snoc del: index_key.simps)
  qed
qed

lemma index_key_inj: "inj index_key"
  by (rule inj_on_inverseI [of _ digits_value]) (rule digits_value_index_key)

lemma array_entries_distinct: "distinct (map fst (object_entries (JArr xs)))"
proof -
  have "inj_on index_key (set [0..<length xs])"
    using index_key_inj by (rule inj_on_subset) simp
  then have "distinct (map index_key [0..<length xs])" by (simp add: distinct_map)
  then show ?thesis by simp
qed

lemma js_assign_map_of:
  "map_of (js_assign k v ps) = (if k = ''__proto__'' then map_of ps else (map_of ps)(k \<mapsto> v))"
  by (simp add: js_assign_def js_define_map_of)

lemma js_assign_distinct:
  "distinct (map fst ps) \<Longrightarrow> distinct (map fst (js_assign k v ps))"
  by (simp add: js_assign_def js_define_distinct)

lemma lastUsed_case:
  "(case v of JNum n \<Rightarrow> if isFinite n then Some n else None | _ \<Rightarrow> None)
     = (case v of JNum (Num q) \<Rightarrow> Some (Num q) | _ \<Rightarrow> None)"
  by (simp split: jsval.splits jsnum.splits)

lemma finite_nonneg: "\<not> (\<not> isFinite m \<or> num_negative m) \<longleftrightarrow> (\<exists>q. m = Num q \<and> 0 \<le> q)"
  by (cases m) auto

lemma sanitized_entry_Some:
  assumes "sanitized_entry raw = Some e"
  shows "is_object raw \<and> js_get raw ''title'' = JStr (title e) \<and> trim (title e) \<noteq> []
         \<and> (\<exists>q. js_get raw ''mtime'' = JNum (Num q) \<and> mtime e = Num q \<and> 0 \<le> q)
         \<and> lastUsed e = (case js_get raw ''lastUsed'' of
                            JNum (Num q) \<Rightarrow> Some (Num q) | _ \<Rightarrow> None)"
proof -
  note d = sanitized_entry_def Let_def
  from assms have obj: "is_object raw" by (simp add: d split: if_splits)
  from assms obj obtain t where t: "js_get raw ''title'' = JStr t"
    by (cases "js_get raw ''title''") (simp_all add: d)
  from assms obj t have tn: "trim t \<noteq> []" by (simp add: d split: if_splits)
  from assms obj t tn obtain m where m: "js_get raw ''mtime'' = JNum m"
    by (cases "js_get raw ''mtime''") (simp_all add: d)
  from assms obj t tn m have "\<not> (\<not> isFinite m \<or> num_negative m)"
    by (simp add: d split: if_splits)
  then obtain q where q: "m = Num q" "0 \<le> q" unfolding finite_nonneg by blast
  from assms obj t tn m q
  have "e = \<lparr>mtime = Num q, title = t,
             lastUsed = (case js_get raw ''lastUsed'' of
                           JNum (Num u) \<Rightarrow> Some (Num u) | _ \<Rightarrow> None)\<rparr>"
    by (simp add: d lastUsed_case not_less [symmetric])
  with obj t tn m q show ?thesis by simp
qed

lemma sanitized_entry_None:
  assumes "\<not> is_object raw \<or> (\<forall>t. js_get raw ''title'' = JStr t \<longrightarrow> trim t = [])
           \<or> (\<forall>q. js_get raw ''mtime'' = JNum (Num q) \<longrightarrow> q < 0)"
  shows "sanitized_entry raw = None"
proof (cases "sanitized_entry raw")
  case None
  then show ?thesis .
next
  case (Some e)
  from sanitized_entry_Some [OF Some] assms show ?thesis by force
qed

lemma sanitized_entry_roundtrip:
  assumes "sanitized_entry raw = Some e"
  shows "sanitized_entry (entry_value e) = Some e"
proof -
  from sanitized_entry_Some [OF assms] obtain q where
    t: "trim (title e) \<noteq> []" and m: "mtime e = Num q" "0 \<le> q"
    and l: "lastUsed e = (case js_get raw ''lastUsed'' of JNum (Num q) \<Rightarrow> Some (Num q) | _ \<Rightarrow> None)"
    by blast
  from l have "lastUsed e = None \<or> (\<exists>u. lastUsed e = Some (Num u))"
    by (auto split: jsval.splits jsnum.splits)
  then show ?thesis
    using t m by (auto simp: sanitized_entry_def entry_value_def Let_def)
qed


lemma sanitize_fold_distinct:
  "distinct (map fst acc) \<Longrightarrow>
   distinct (map fst (fold (\<lambda>(key, raw) out. case sanitized_entry raw of
                                None \<Rightarrow> out | Some e \<Rightarrow> js_assign key e out) es acc))"
  by (induction es arbitrary: acc) (auto simp: js_assign_distinct split: option.splits)

lemma sanitize_fold_sound:
  "map_of (fold (\<lambda>(key, raw) out. case sanitized_entry raw of
                   None \<Rightarrow> out | Some e \<Rightarrow> js_assign key e out) es acc) k = Some e
   \<Longrightarrow> map_of acc k = Some e
       \<or> (k \<noteq> ''__proto__'' \<and> (\<exists>raw. (k, raw) \<in> set es \<and> sanitized_entry raw = Some e))"
proof (induction es arbitrary: acc)
  case Nil
  then show ?case by simp
next
  case (Cons p es)
  obtain key raw where p: "p = (key, raw)" by (cases p)
  let ?acc = "case sanitized_entry raw of None \<Rightarrow> acc | Some e \<Rightarrow> js_assign key e acc"
  from Cons.prems have "map_of (fold (\<lambda>(key, raw) out. case sanitized_entry raw of
                   None \<Rightarrow> out | Some e \<Rightarrow> js_assign key e out) es ?acc) k = Some e"
    by (simp add: p)
  from Cons.IH [OF this]
  have "map_of ?acc k = Some e
        \<or> (k \<noteq> ''__proto__'' \<and> (\<exists>raw. (k, raw) \<in> set es \<and> sanitized_entry raw = Some e))" .
  then show ?case
  proof
    assume a: "map_of ?acc k = Some e"
    show ?thesis
    proof (cases "sanitized_entry raw")
      case None
      with a show ?thesis by simp
    next
      case (Some e')
      with a have "map_of (js_assign key e' acc) k = Some e" by simp
      then have "map_of acc k = Some e \<or> (k \<noteq> ''__proto__'' \<and> k = key \<and> e' = e)"
        by (auto simp: js_assign_map_of split: if_splits)
      with Some show ?thesis by (auto simp: p)
    qed
  next
    assume "k \<noteq> ''__proto__'' \<and> (\<exists>raw. (k, raw) \<in> set es \<and> sanitized_entry raw = Some e)"
    then show ?thesis by auto
  qed
qed

lemma sanitize_fold_other:
  "k \<notin> fst ` set es \<Longrightarrow>
   map_of (fold (\<lambda>(key, raw) out. case sanitized_entry raw of
                   None \<Rightarrow> out | Some e \<Rightarrow> js_assign key e out) es acc) k = map_of acc k"
proof (induction es arbitrary: acc)
  case Nil
  then show ?case by simp
next
  case (Cons p es)
  obtain key raw where p: "p = (key, raw)" by (cases p)
  from Cons.prems have ne: "k \<noteq> key" and rest: "k \<notin> fst ` set es" by (auto simp: p)
  show ?case
    using ne by (simp add: p Cons.IH [OF rest] js_assign_map_of split: option.splits)
qed

lemma sanitize_fold_complete:
  assumes "distinct (map fst es)" and "(k, raw) \<in> set es" and "sanitized_entry raw = Some e"
    and "k \<noteq> ''__proto__''"
  shows "map_of (fold (\<lambda>(key, raw) out. case sanitized_entry raw of
                   None \<Rightarrow> out | Some e \<Rightarrow> js_assign key e out) es acc) k = Some e"
  using assms(1,2)
proof (induction es arbitrary: acc)
  case Nil
  then show ?case by simp
next
  case (Cons p es)
  obtain key raw' where p: "p = (key, raw')" by (cases p)
  show ?case
  proof (cases "key = k")
    case True
    with Cons.prems p have raw': "raw' = raw" and out: "k \<notin> fst ` set es"
      by (auto simp: image_iff)
    show ?thesis
      using True raw' assms(3,4)
      by (simp add: p sanitize_fold_other [OF out] js_assign_map_of)
  next
    case False
    with Cons.prems p have "distinct (map fst es)" and "(k, raw) \<in> set es" by auto
    then show ?thesis by (simp add: p Cons.IH)
  qed
qed

lemma sanitize_distinct: "distinct (map fst (sanitizeOllamaTitleCache x))"
  by (simp add: sanitizeOllamaTitleCache_def sanitize_fold_distinct)

lemma sanitize_sound:
  assumes "(k, e) \<in> set (sanitizeOllamaTitleCache x)"
  shows "k \<noteq> ''__proto__'' \<and> (\<exists>raw. (k, raw) \<in> set (object_entries x) \<and> sanitized_entry raw = Some e)"
proof -
  from assms have "map_of (sanitizeOllamaTitleCache x) k = Some e"
    using sanitize_distinct by simp
  then show ?thesis
    using sanitize_fold_sound [of "object_entries x" "[]" k e]
    by (auto simp: sanitizeOllamaTitleCache_def split: if_splits)
qed

lemma sanitize_complete:
  assumes "distinct (map fst ps)" and "(k, raw) \<in> set ps" and "sanitized_entry raw = Some e"
    and "k \<noteq> ''__proto__''"
  shows "(k, e) \<in> set (sanitizeOllamaTitleCache (JObj ps))"
proof -
  have "map_of (sanitizeOllamaTitleCache (JObj ps)) k = Some e"
    using sanitize_fold_complete [OF assms, of "[]"]
    by (simp add: sanitizeOllamaTitleCache_def)
  then show ?thesis by (rule map_of_SomeD)
qed

lemmas sanitize_eval =
  sanitizeOllamaTitleCache_def sanitized_entry_def trim_def is_space_def Let_def object_eval

lemma sanitize_complete_entries:
  assumes "distinct (map fst (object_entries x))" and "(k, raw) \<in> set (object_entries x)"
    and "sanitized_entry raw = Some e" and "k \<noteq> ''__proto__''"
  shows "(k, e) \<in> set (sanitizeOllamaTitleCache x)"
proof -
  from assms(2) have obj: "is_object x" by (cases x) simp_all
  have "map_of (fold (\<lambda>(key, raw) out.
                        case sanitized_entry raw of None \<Rightarrow> out | Some e \<Rightarrow> js_assign key e out)
                     (object_entries x) []) k = Some e"
    using assms by (rule sanitize_fold_complete)
  with obj have "map_of (sanitizeOllamaTitleCache x) k = Some e"
    by (simp add: sanitizeOllamaTitleCache_def)
  then show ?thesis by (rule map_of_SomeD)
qed

lemma sanitized_entry_valid:
  assumes "is_object raw" and "js_get raw ''title'' = JStr t" and "trim t \<noteq> []"
    and "js_get raw ''mtime'' = JNum (Num q)" and "0 \<le> q"
  shows "sanitized_entry raw =
           Some \<lparr>mtime = Num q, title = t,
                 lastUsed = (case js_get raw ''lastUsed'' of
                               JNum (Num r) \<Rightarrow> Some (Num r) | _ \<Rightarrow> None)\<rparr>"
proof -
  have l: "(case js_get raw ''lastUsed'' of JNum n \<Rightarrow> if isFinite n then Some n else None | _ \<Rightarrow> None)
           = (case js_get raw ''lastUsed'' of JNum (Num r) \<Rightarrow> Some (Num r) | _ \<Rightarrow> None)"
    by (rule lastUsed_case)
  from assms show ?thesis
    unfolding sanitized_entry_def l [symmetric]
    by (simp add: Let_def not_less [symmetric] del: not_less)
qed

lemma sanitize_no_proto: "''__proto__'' \<notin> fst ` set (sanitizeOllamaTitleCache x)"
proof
  assume "''__proto__'' \<in> fst ` set (sanitizeOllamaTitleCache x)"
  then obtain e where "(''__proto__'', e) \<in> set (sanitizeOllamaTitleCache x)" by force
  from sanitize_sound [OF this] show False by simp
qed

section \<open>Properties of the title functions\<close>

lemmas title_eval =
  parseDailyTitleParts_def sanitizeWord_def sanitizeDescription_def stripYamlFrontmatter_def
  trim_def is_space_def is_crlf_tab_def is_letter_or_number_def is_terminal_mark_def Let_def

lemma dropWhile_first:
  assumes "n < length xs" and "\<not> P (xs ! n)" and "\<forall>j < n. P (xs ! j)"
  shows "dropWhile P xs = xs ! n # drop (Suc n) xs"
proof -
  have "takeWhile P xs = take n xs"
    using assms by (intro takeWhile_eq_take_P_nth) auto
  then have "length (takeWhile P xs) = n" using assms(1) by simp
  then have "dropWhile P xs = drop n xs" by (simp add: dropWhile_eq_drop)
  then show ?thesis using assms(1) by (simp add: Cons_nth_drop_Suc)
qed

lemma split_lines_nonempty: "split_lines t \<noteq> []"
  by (cases t) (auto split: list.splits)

subsection \<open>The shape of a sanitized word\<close>

text \<open>
  What \<^verbatim>\<open>sanitizeWord\<close> does guarantee: its result holds no white space, and a
  result that is not empty starts with a letter or a digit.
\<close>

lemma replace_runs_set:
  "set (replace_runs P r s) \<subseteq> set r \<union> {c \<in> set s. \<not> P c}"
proof (induction P r s rule: replace_runs.induct)
  case (1 P r)
  show ?case by simp
next
  case (2 P r c cs)
  show ?case
  proof (cases "P c")
    case True
    have "set (dropWhile P cs) \<subseteq> set cs" by (rule set_dropWhileD [THEN subsetI])
    with "2.IH"(1) [OF True] True show ?thesis by auto
  next
    case False
    with "2.IH"(2) [OF False] show ?thesis by auto
  qed
qed

lemma split_on_first:
  "(case split_on sep s of [] \<Rightarrow> [] | w # ws \<Rightarrow> w) = takeWhile (\<lambda>c. c \<noteq> sep) s"
  by (induction s) (auto split: list.splits)

lemma letter_or_number_not_space: "is_letter_or_number c \<Longrightarrow> \<not> is_space c"
  by (auto simp: is_space_def is_letter_or_number_def)

lemma strip_end_prefix: "\<exists>ys. xs = rev (dropWhile P (rev xs)) @ ys"
proof -
  have "rev xs = takeWhile P (rev xs) @ dropWhile P (rev xs)" by simp
  then have "rev (rev xs) = rev (takeWhile P (rev xs) @ dropWhile P (rev xs))" by (rule arg_cong)
  then have "xs = rev (dropWhile P (rev xs)) @ rev (takeWhile P (rev xs))"
    by (simp only: rev_rev_ident rev_append)
  then show ?thesis ..
qed

lemma sanitizeWord_shape:
  "(\<forall>c \<in> set (sanitizeWord word). \<not> is_space c)
   \<and> (sanitizeWord word \<noteq> [] \<longrightarrow> is_letter_or_number (hd (sanitizeWord word)))"
proof -
  define Z where "Z = dropWhile (\<lambda>c. \<not> is_letter_or_number c) (trim (replace_runs is_crlf_tab '' '' word))"
  define X where "X = rev (dropWhile (\<lambda>c. \<not> is_letter_or_number c) (rev Z))"
  define cleaned where "cleaned = replace_runs is_space '' '' X"
  have w: "sanitizeWord word = takeWhile (\<lambda>c. c \<noteq> CHR '' '') cleaned"
    by (simp add: sanitizeWord_def split_on_first cleaned_def X_def Z_def)
  have chars: "\<not> is_space c" if "c \<in> set (sanitizeWord word)" for c
  proof -
    from that have "c \<in> set cleaned" and "c \<noteq> CHR '' ''"
      unfolding w by (auto dest: set_takeWhileD)
    with replace_runs_set [of is_space "'' ''" X] show ?thesis
      unfolding cleaned_def by auto
  qed
  have first: "is_letter_or_number (hd (sanitizeWord word))" if ne: "sanitizeWord word \<noteq> []"
  proof -
    from ne have cne: "cleaned \<noteq> []" unfolding w by auto
    have xne: "X \<noteq> []"
    proof
      assume "X = []"
      then have "cleaned = []" by (simp add: cleaned_def)
      with cne show False by (rule notE)
    qed
    obtain ys where z: "Z = X @ ys"
      using strip_end_prefix [of Z "\<lambda>c. \<not> is_letter_or_number c"] unfolding X_def by blast
    with xne have "Z \<noteq> []" by auto
    then have "\<not> \<not> is_letter_or_number (hd Z)"
      unfolding Z_def by (rule hd_dropWhile)
    moreover have "hd Z = hd X" using z xne by simp
    ultimately have ln: "is_letter_or_number (hd X)" by simp
    then have ns: "\<not> is_space (hd X)" by (rule letter_or_number_not_space)
    obtain x xs where x: "X = x # xs" using xne by (cases X) auto
    from ns x have c: "cleaned = x # replace_runs is_space '' '' xs" by (simp add: cleaned_def)
    from ns x have "x \<noteq> CHR '' ''" by (auto simp: is_space_def)
    with c have "hd (sanitizeWord word) = x" unfolding w by simp
    with ln x show ?thesis by simp
  qed
  from chars first show ?thesis by blast
qed

section \<open>Properties of the colour tag sanitizer\<close>

lemma replicate_small:
  "replicate 2 x = [x, x]" "replicate 3 x = [x, x, x]" "replicate 4 x = [x, x, x, x]"
  "replicate 6 x = [x, x, x, x, x, x]"
  by (simp_all add: numeral_eq_Suc)

lemmas color_eval = replicate_small
  sanitizeListItemColorTags_def normalizeListItemColor_def HEX_COLOR_RE_def DAY_KEY_RE_def
  FILE_KEY_RE_def matches_classes_def is_hex_digit_def is_line_terminator_def
  expandHex3ToHex6_def to_lower_char_def trim_def is_space_def Let_def object_eval

lemma js_assign_keys:
  "fst ` set (js_assign k v ps) = (if k = ''__proto__'' then fst ` set ps else insert k (fst ` set ps))"
  by (simp add: js_assign_def js_define_keys)

lemma valid_key_not_proto:
  assumes "DAY_KEY_RE k \<or> FILE_KEY_RE k"
  shows "k \<noteq> ''__proto__'' \<and> k \<noteq> []"
  using assms
  by (auto simp: DAY_KEY_RE_def FILE_KEY_RE_def matches_classes_def list_all2_Cons1)

lemma color_fold_keys_grow:
  "k \<in> fst ` set acc \<Longrightarrow>
   k \<in> fst ` set (fold (\<lambda>(rawKey, rawVal) out.
                let key = trim rawKey in
                if key = [] then out
                else if \<not> (DAY_KEY_RE key \<or> FILE_KEY_RE key) then out
                else
                  case rawVal of
                    JStr str \<Rightarrow>
                      let color = normalizeListItemColor str in
                      if color = [] then out else js_assign key color out
                  | _ \<Rightarrow> out) ys acc)"
proof (induction ys arbitrary: acc)
  case Nil
  then show ?case by simp
next
  case (Cons p ys)
  obtain rk rv where p: "p = (rk, rv)" by (cases p)
  show ?case
    unfolding p fold_Cons comp_apply prod.case
    by (rule Cons.IH) (use Cons.prems in \<open>auto simp: Let_def js_assign_keys split: jsval.splits\<close>)
qed

lemma color_fold_unchanged:
  assumes "\<forall>(k', v') \<in> set ys. trim k' = key \<longrightarrow> (\<forall>s'. v' = JStr s' \<longrightarrow> normalizeListItemColor s' = [])"
  shows "map_of (fold (\<lambda>(rawKey, rawVal) out.
                let key = trim rawKey in
                if key = [] then out
                else if \<not> (DAY_KEY_RE key \<or> FILE_KEY_RE key) then out
                else
                  case rawVal of
                    JStr str \<Rightarrow>
                      let color = normalizeListItemColor str in
                      if color = [] then out else js_assign key color out
                  | _ \<Rightarrow> out) ys acc) key = map_of acc key"
  using assms
proof (induction ys arbitrary: acc)
  case Nil
  then show ?case by simp
next
  case (Cons p ys)
  obtain rk rv where p: "p = (rk, rv)" by (cases p)
  from Cons.prems have rest: "\<forall>(k', v') \<in> set ys. trim k' = key \<longrightarrow> (\<forall>s'. v' = JStr s' \<longrightarrow> normalizeListItemColor s' = [])"
    by simp
  from Cons.prems p have here: "trim rk = key \<longrightarrow> (\<forall>s'. rv = JStr s' \<longrightarrow> normalizeListItemColor s' = [])"
    by simp
  show ?case
    unfolding p fold_Cons comp_apply prod.case Cons.IH [OF rest]
    using here by (auto simp: Let_def js_assign_map_of split: jsval.splits)
qed

section \<open>Properties of the operations on the store\<close>

lemma sanitize_step_store_frame:
  assumes "n \<le> out" and "out < length h"
  shows "take n (sanitize_step_store out p h) = take n h
         \<and> length h \<le> length (sanitize_step_store out p h)"
proof -
  obtain key raw where p: "p = (key, raw)" by (cases p)
  show ?thesis
    using assms
    by (auto simp: sanitize_step_store_def p alloc_def Let_def
        split: hval.splits if_splits)
qed

lemma sanitize_fold_store_frame:
  assumes "n \<le> out" and "out < length h"
  shows "take n (fold (sanitize_step_store out) ps h) = take n h
         \<and> length h \<le> length (fold (sanitize_step_store out) ps h)"
  using assms(2)
proof (induction ps arbitrary: h)
  case Nil
  then show ?case by simp
next
  case (Cons p ps)
  from sanitize_step_store_frame [OF assms(1) Cons.prems, of p]
  have a: "take n (sanitize_step_store out p h) = take n h"
    and b: "length h \<le> length (sanitize_step_store out p h)" by simp_all
  from b Cons.prems have "out < length (sanitize_step_store out p h)" by simp
  from Cons.IH [OF this] a b show ?case by simp
qed

lemma sanitize_store_frame:
  assumes "sanitizeOllamaTitleCache_store h v = (h', out)"
  shows "take (length h) h' = h \<and> length h \<le> out \<and> out < length h'"
proof (cases "is_ref v")
  case False
  with assms show ?thesis by (auto simp: sanitizeOllamaTitleCache_store_def alloc_def)
next
  case True
  with assms have out: "out = length h"
    and h': "h' = fold (sanitize_step_store (length h)) (props h v) (h @ [[]])"
    by (auto simp: sanitizeOllamaTitleCache_store_def alloc_def)
  have "length h < length (h @ [[]])" by simp
  from sanitize_fold_store_frame [OF order_refl this, of "props h v"]
  show ?thesis unfolding out h' by simp
qed


lemma js_define_subset: "set (js_define k v ps) \<subseteq> insert (k, v) (set ps)"
  by (auto simp: js_define_def insert_index_set split: if_splits)

lemma fold_define_subset:
  "set (fold (\<lambda>(k, v) acc. js_define k v acc) ps acc) \<subseteq> set acc \<union> set ps"
proof (induction ps arbitrary: acc)
  case Nil
  show ?case by simp
next
  case (Cons p ps)
  obtain k v where p: "p = (k, v)" by (cases p)
  have "set (fold (\<lambda>(k, v) acc. js_define k v acc) ps (js_define k v acc))
          \<subseteq> set (js_define k v acc) \<union> set ps"
    by (rule Cons.IH)
  with js_define_subset [of k v acc] show ?case by (auto simp: p)
qed

lemma js_spread_subset: "set (js_spread ps) \<subseteq> set ps"
  using fold_define_subset [of ps "[]"] by (simp add: js_spread_def)

lemma delete_fold_store:
  assumes "next < length h"
  shows "fold (\<lambda>(key, _) h'. h'[next := js_delete key (h' ! next)]) ds h
           = h[next := fold (\<lambda>(key, _) ps. js_delete key ps) ds (h ! next)]"
  using assms
proof (induction ds arbitrary: h)
  case Nil
  then show ?case by simp
next
  case (Cons d ds)
  obtain k v where d: "d = (k, v)" by (cases d)
  have "next < length (h[next := js_delete k (h ! next)])" using Cons.prems by simp
  from Cons.IH [OF this] Cons.prems show ?case by (simp add: d)
qed

lemma prune_store_cases:
  assumes "pruneOllamaTitleCache_store h c maxEntries = (h', r)"
  obtains (same) "h' = h" and "r = c"
  | (fresh) ds :: "(string \<times> rat) list" where "r = length h"
      and "h' = h @ [fold (\<lambda>(key, _) ps. js_delete key ps) ds (js_spread (props h (HRef c)))]"
proof (cases "h' = h \<and> r = c")
  case True
  then show ?thesis using same by simp
next
  case False
  with assms obtain mx where m: "maxEntries = Some (Num mx)"
    by (auto simp: pruneOllamaTitleCache_store_def split: option.splits jsnum.splits)
  define ds where "ds = take (nat \<lfloor>of_nat (length (map fst (props h (HRef c)))) - mx\<rfloor>)
               (sort_key snd (map (\<lambda>k. (k, sortable_lastUsed_store h
                                            (map_of (props h (HRef c)) k)))
                                  (map fst (props h (HRef c)))))"
  define sp where "sp = js_spread (props h (HRef c))"
  have run: "pruneOllamaTitleCache_store h c maxEntries
         = (if mx \<le> 0 \<or> of_nat (length (map fst (props h (HRef c)))) \<le> mx \<or> ds = [] then (h, c)
            else (fold (\<lambda>(key, _) h'. h'[length h := js_delete key (h' ! length h)]) ds (h @ [sp]),
                  length h))"
    unfolding pruneOllamaTitleCache_store_def m ds_def sp_def
    by (simp add: Let_def alloc_def)
  from assms False have r: "r = length h"
    and h': "h' = fold (\<lambda>(key, _) h'. h'[length h := js_delete key (h' ! length h)]) ds (h @ [sp])"
    unfolding run by (auto split: if_splits)
  have "length h < length (h @ [sp])" by simp
  then have "h' = (h @ [sp])[length h := fold (\<lambda>(key, _) ps. js_delete key ps) ds ((h @ [sp]) ! length h)]"
    unfolding h' by (rule delete_fold_store)
  then have "h' = h @ [fold (\<lambda>(key, _) ps. js_delete key ps) ds (js_spread (props h (HRef c)))]"
    unfolding sp_def by simp
  then show ?thesis by (rule fresh [OF r])
qed

lemma prune_store_noop:
  assumes "maxEntries = None
           \<or> (\<exists>q. maxEntries = Some (Num q) \<and> (q \<le> 0 \<or> of_nat (length (props h (HRef c))) \<le> q))"
  shows "pruneOllamaTitleCache_store h c maxEntries = (h, c)"
  using assms by (auto simp: pruneOllamaTitleCache_store_def Let_def)

lemma prune_store_frame:
  assumes "pruneOllamaTitleCache_store h c maxEntries = (h', r)"
  shows "take (length h) h' = h \<and> (r = c \<or> r = length h) \<and> (r < length h \<longrightarrow> r = c \<and> h' = h)
         \<and> (c < length h \<longrightarrow> r < length h' \<and> set (h' ! r) \<subseteq> set (h ! c))"
proof (rule prune_store_cases [OF assms])
  assume "h' = h" and "r = c"
  then show ?thesis by simp
next
  fix ds :: "(string \<times> rat) list"
  assume fresh: "r = length h"
    "h' = h @ [fold (\<lambda>(key, _) ps. js_delete key ps) ds (js_spread (props h (HRef c)))]"
  have "set (fold (\<lambda>(key, _) ps. js_delete key ps) ds (js_spread (props h (HRef c))))
          \<subseteq> set (props h (HRef c))"
    using js_spread_subset [of "props h (HRef c)"] by (auto simp: fold_js_delete)
  moreover have "c < length h \<longrightarrow> props h (HRef c) = h ! c" by (simp add: props_def)
  ultimately have sub: "c < length h \<longrightarrow>
      set (fold (\<lambda>(key, _) ps. js_delete key ps) ds (js_spread (props h (HRef c)))) \<subseteq> set (h ! c)"
    by metis
  have "take (length h) h' = h" and "r < length h'"
    and "h' ! r = fold (\<lambda>(key, _) ps. js_delete key ps) ds (js_spread (props h (HRef c)))"
    unfolding fresh by simp_all
  with sub fresh(1) show ?thesis by simp
qed

lemma upsert_store_frame:
  assumes "upsertOllamaTitleCacheEntry_store date_now h cache filePath entry maxEntries nowMs = (h', r)"
  shows "take (length h) h' = h \<and> length h \<le> r \<and> r < length h'"
proof -
  let ?now = "case nowMs of None \<Rightarrow> Num (of_int date_now) | Some n \<Rightarrow> n"
  let ?copy = "js_spread (case cache of None \<Rightarrow> [] | Some c \<Rightarrow> props h (HRef c))"
  let ?e = "[(''mtime'', HNum (mtime entry)), (''title'', HStr (title entry)), (''lastUsed'', HNum ?now)]"
  let ?h3 = "(h @ [?copy] @ [?e])[length h := js_define filePath (HRef (Suc (length h))) ?copy]"
  have h3: "?h3 = h @ [js_define filePath (HRef (Suc (length h))) ?copy, ?e]"
    by (simp add: list_update_append)
  from assms have run: "pruneOllamaTitleCache_store ?h3 (length h) maxEntries = (h', r)"
    by (simp add: upsertOllamaTitleCacheEntry_store_def alloc_def Let_def nth_append)
  from prune_store_frame [OF run]
  have t: "take (length ?h3) h' = ?h3" and c: "r = length h \<or> r = length ?h3"
    and v: "length h < length ?h3 \<longrightarrow> r < length h'"
    by blast+
  have l3: "length ?h3 = Suc (Suc (length h))" by simp
  from t have "take (length h) (take (length ?h3) h') = take (length h) ?h3" by simp
  then have "take (length h) h' = h" unfolding h3 by (simp add: min_def)
  moreover from c l3 have "length h \<le> r" by auto
  moreover from v l3 have "r < length h'" by simp
  ultimately show ?thesis by simp
qed

section \<open>The operations on the store compute the operations on values\<close>

text \<open>
  The two embeddings of \<^verbatim>\<open>cache.ts\<close> agree: the object an operation on the store returns,
  read out of the new store, is what the operation on values returns for the input read
  out of the old store (lemmas \<open>prune_store_refines\<close>, \<open>upsert_store_refines\<close> and
  \<open>sanitize_store_refines\<close>). The addresses an input holds are addresses of the store.
\<close>

lemma map_values_keys: "map fst (map (\<lambda>(k, v). (k, f v)) ps) = map fst ps"
  by (induction ps) auto

lemma map_values_key_set: "fst ` set (map (\<lambda>(k, v). (k, f v)) ps) = fst ` set ps"
  using map_values_keys [of f ps] by (metis set_map)

lemma map_values_map_of:
  "map_of (map (\<lambda>(k, v). (k, f v)) ps) k = map_option f (map_of ps k)"
  by (induction ps) auto

lemma map_values_delete:
  "js_delete k (map (\<lambda>(k, v). (k, f v)) ps) = map (\<lambda>(k, v). (k, f v)) (js_delete k ps)"
  by (induction ps) (auto simp: js_delete_def)

lemma map_values_insert_index:
  "insert_index k (f v) (map (\<lambda>(k, v). (k, f v)) ps) = map (\<lambda>(k, v). (k, f v)) (insert_index k v ps)"
  by (induction k v ps rule: insert_index.induct) simp_all

lemma map_values_update:
  "map (\<lambda>(k', v'). if k' = k then (k', f v) else (k', v')) (map (\<lambda>(k, v). (k, f v)) ps)
     = map (\<lambda>(k, v). (k, f v)) (map (\<lambda>(k', v'). if k' = k then (k', v) else (k', v')) ps)"
  by (induction ps) auto

lemma map_values_define:
  "js_define k (f v) (map (\<lambda>(k, v). (k, f v)) ps) = map (\<lambda>(k, v). (k, f v)) (js_define k v ps)"
  unfolding js_define_def map_values_key_set
  by (simp only: map_values_update map_values_insert_index map_append list.map prod.case
      if_distrib [of "map (\<lambda>(k, v). (k, f v))"])

lemma map_values_spread_fold:
  "fold (\<lambda>(k, v) acc. js_define k v acc) (map (\<lambda>(k, v). (k, f v)) ps) (map (\<lambda>(k, v). (k, f v)) acc)
     = map (\<lambda>(k, v). (k, f v)) (fold (\<lambda>(k, v) acc. js_define k v acc) ps acc)"
proof (induction ps arbitrary: acc)
  case Nil
  show ?case by simp
next
  case (Cons p ps)
  obtain k v where p: "p = (k, v)" by (cases p)
  show ?case by (simp add: p map_values_define Cons.IH)
qed

lemma map_values_spread:
  "js_spread (map (\<lambda>(k, v). (k, f v)) ps) = map (\<lambda>(k, v). (k, f v)) (js_spread ps)"
  using map_values_spread_fold [of f ps "[]"] by (simp add: js_spread_def)

lemma map_values_delete_fold:
  "fold (\<lambda>(key, _) ps. js_delete key ps) ds (map (\<lambda>(k, v). (k, f v)) ps)
     = map (\<lambda>(k, v). (k, f v)) (fold (\<lambda>(key, _) ps. js_delete key ps) ds ps)"
proof (induction ds arbitrary: ps)
  case Nil
  show ?case by simp
next
  case (Cons d ds)
  obtain k x where d: "d = (k, x)" by (cases d)
  show ?case by (simp add: d map_values_delete Cons.IH)
qed

lemma sortable_view:
  "sortable_lastUsed (map_option (entry_view h) x) = sortable_lastUsed_store h x"
  by (cases x)
     (auto simp: sortable_lastUsed_store_def entry_view_def split: hval.splits jsnum.splits)

lemma prune_run:
  "pruneOllamaTitleCache cache (Some (Num mx))
     = (if mx \<le> 0 \<or> of_nat (length cache) \<le> mx
           \<or> take (nat \<lfloor>of_nat (length cache) - mx\<rfloor>)
                (sort_key snd (map (\<lambda>k. (k, sortable_lastUsed (map_of cache k))) (map fst cache))) = []
        then cache
        else fold (\<lambda>(key, _) ps. js_delete key ps)
               (take (nat \<lfloor>of_nat (length cache) - mx\<rfloor>)
                  (sort_key snd (map (\<lambda>k. (k, sortable_lastUsed (map_of cache k))) (map fst cache))))
               (js_spread cache))"
  by (simp add: pruneOllamaTitleCache_def Let_def)

lemma prune_store_run:
  "pruneOllamaTitleCache_store h c (Some (Num mx))
     = (if mx \<le> 0 \<or> of_nat (length (props h (HRef c))) \<le> mx
           \<or> take (nat \<lfloor>of_nat (length (props h (HRef c))) - mx\<rfloor>)
                (sort_key snd (map (\<lambda>k. (k, sortable_lastUsed_store h (map_of (props h (HRef c)) k)))
                                   (map fst (props h (HRef c))))) = []
        then (h, c)
        else (h @ [fold (\<lambda>(key, _) ps. js_delete key ps)
                    (take (nat \<lfloor>of_nat (length (props h (HRef c))) - mx\<rfloor>)
                       (sort_key snd (map (\<lambda>k. (k, sortable_lastUsed_store h (map_of (props h (HRef c)) k)))
                                          (map fst (props h (HRef c))))))
                    (js_spread (props h (HRef c)))],
              length h))"
proof -
  define ds where "ds = take (nat \<lfloor>of_nat (length (props h (HRef c))) - mx\<rfloor>)
                (sort_key snd (map (\<lambda>k. (k, sortable_lastUsed_store h (map_of (props h (HRef c)) k)))
                                   (map fst (props h (HRef c)))))"
  define sp where "sp = js_spread (props h (HRef c))"
  have run: "pruneOllamaTitleCache_store h c (Some (Num mx))
         = (if mx \<le> 0 \<or> of_nat (length (props h (HRef c))) \<le> mx \<or> ds = [] then (h, c)
            else (fold (\<lambda>(key, _) h'. h'[length h := js_delete key (h' ! length h)]) ds (h @ [sp]),
                  length h))"
    unfolding pruneOllamaTitleCache_store_def ds_def sp_def
    by (simp add: Let_def alloc_def)
  have "length h < length (h @ [sp])" by simp
  then have "fold (\<lambda>(key, _) h'. h'[length h := js_delete key (h' ! length h)]) ds (h @ [sp])
      = (h @ [sp])[length h := fold (\<lambda>(key, _) ps. js_delete key ps) ds ((h @ [sp]) ! length h)]"
    by (rule delete_fold_store)
  then have "fold (\<lambda>(key, _) h'. h'[length h := js_delete key (h' ! length h)]) ds (h @ [sp])
      = h @ [fold (\<lambda>(key, _) ps. js_delete key ps) ds sp]"
    by simp
  then show ?thesis unfolding run unfolding ds_def sp_def by simp
qed

lemma entry_view_extend:
  assumes "\<forall>a. v = HRef a \<longrightarrow> a < length h"
  shows "entry_view (h @ hs) v = entry_view h v"
  using assms
  by (cases v) (simp_all add: entry_view_def h_get_def props_def nth_append)

lemma prune_store_refines:
  assumes wf: "\<forall>(k, v) \<in> set (props h (HRef c)). \<forall>a. v = HRef a \<longrightarrow> a < length h"
    and run: "pruneOllamaTitleCache_store h c maxEntries = (h', r)"
  shows "cache_view h' r = pruneOllamaTitleCache (cache_view h c) maxEntries"
proof (cases "\<exists>mx. maxEntries = Some (Num mx)")
  case False
  then have "pruneOllamaTitleCache_store h c maxEntries = (h, c)"
    and "pruneOllamaTitleCache (cache_view h c) maxEntries = cache_view h c"
    by (auto simp: pruneOllamaTitleCache_store_def pruneOllamaTitleCache_def
        split: option.splits jsnum.splits)
  with run show ?thesis by simp
next
  case True
  then obtain mx where m: "maxEntries = Some (Num mx)" by blast
  let ?ps = "props h (HRef c)"
  let ?g = "map (\<lambda>(k, v). (k, entry_view h v))"
  define ds where "ds = take (nat \<lfloor>of_nat (length ?ps) - mx\<rfloor>)
                (sort_key snd (map (\<lambda>k. (k, sortable_lastUsed_store h (map_of ?ps k))) (map fst ?ps)))"
  have cv: "cache_view h c = ?g ?ps" by (simp add: cache_view_def)
  have len: "length (cache_view h c) = length ?ps" by (simp add: cv)
  have keys: "map fst (cache_view h c) = map fst ?ps" unfolding cv by (rule map_values_keys)
  have sortable: "(\<lambda>k. (k, sortable_lastUsed (map_of (cache_view h c) k)))
                    = (\<lambda>k. (k, sortable_lastUsed_store h (map_of ?ps k)))"
    by (rule ext) (simp add: cv map_values_map_of sortable_view)
  have pure: "pruneOllamaTitleCache (cache_view h c) maxEntries
         = (if mx \<le> 0 \<or> of_nat (length ?ps) \<le> mx \<or> ds = [] then cache_view h c
            else fold (\<lambda>(key, _) ps. js_delete key ps) ds (js_spread (cache_view h c)))"
    unfolding m prune_run len keys sortable ds_def by simp
  have store: "pruneOllamaTitleCache_store h c maxEntries
         = (if mx \<le> 0 \<or> of_nat (length ?ps) \<le> mx \<or> ds = [] then (h, c)
            else (h @ [fold (\<lambda>(key, _) ps. js_delete key ps) ds (js_spread ?ps)], length h))"
    unfolding m prune_store_run ds_def by simp
  show ?thesis
  proof (cases "mx \<le> 0 \<or> of_nat (length ?ps) \<le> mx \<or> ds = []")
    case True
    with run store pure show ?thesis by simp
  next
    case False
    let ?kept = "fold (\<lambda>(key, _) ps. js_delete key ps) ds (js_spread ?ps)"
    from False run store have r: "r = length h" and h': "h' = h @ [?kept]" by simp_all
    have "set ?kept \<subseteq> set ?ps"
      using js_spread_subset [of ?ps] by (auto simp: fold_js_delete)
    with wf have "\<forall>(k, v) \<in> set ?kept. \<forall>a. v = HRef a \<longrightarrow> a < length h" by blast
    then have "map (\<lambda>(k, v). (k, entry_view (h @ [?kept]) v)) ?kept = ?g ?kept"
      by (intro map_cong refl) (auto simp: entry_view_extend)
    then have "cache_view h' r = ?g ?kept"
      unfolding r h' by (simp add: cache_view_def props_def)
    also have "\<dots> = fold (\<lambda>(key, _) ps. js_delete key ps) ds (js_spread (cache_view h c))"
      unfolding cv by (simp only: map_values_spread map_values_delete_fold)
    finally show ?thesis using False pure by simp
  qed
qed

lemma upsert_store_refines:
  assumes wf: "\<forall>c. cache = Some c \<longrightarrow>
                 (\<forall>(k, v) \<in> set (props h (HRef c)). \<forall>a. v = HRef a \<longrightarrow> a < length h)"
    and run: "upsertOllamaTitleCacheEntry_store date_now h cache filePath entry maxEntries nowMs = (h', r)"
  shows "cache_view h' r
           = upsertOllamaTitleCacheEntry date_now (map_option (cache_view h) cache) filePath entry
               maxEntries nowMs"
proof -
  let ?now = "case nowMs of None \<Rightarrow> Num (of_int date_now) | Some n \<Rightarrow> n"
  let ?ps = "case cache of None \<Rightarrow> [] | Some c \<Rightarrow> props h (HRef c)"
  let ?e = "[(''mtime'', HNum (mtime entry)), (''title'', HStr (title entry)), (''lastUsed'', HNum ?now)]"
  let ?next = "js_define filePath (HRef (Suc (length h))) (js_spread ?ps)"
  let ?h3 = "h @ [?next, ?e]"
  let ?new = "\<lparr>mtime = mtime entry, title = title entry, lastUsed = Some ?now\<rparr>"
  have "(h @ [js_spread ?ps] @ [?e])[length h := ?next] = ?h3"
    by (simp add: list_update_append)
  with run have run3: "pruneOllamaTitleCache_store ?h3 (length h) maxEntries = (h', r)"
    by (simp add: upsertOllamaTitleCacheEntry_store_def alloc_def Let_def nth_append)
  have p3: "props ?h3 (HRef (length h)) = ?next" by (simp add: props_def)
  have wfps: "\<forall>(k, v) \<in> set ?ps. \<forall>a. v = HRef a \<longrightarrow> a < length h"
    using wf by (cases cache) auto
  have sub: "set ?next \<subseteq> insert (filePath, HRef (Suc (length h))) (set ?ps)"
    using js_define_subset [of filePath "HRef (Suc (length h))" "js_spread ?ps"]
      js_spread_subset [of ?ps] by blast
  have wf3: "\<forall>(k, v) \<in> set (props ?h3 (HRef (length h))). \<forall>a. v = HRef a \<longrightarrow> a < length ?h3"
    unfolding p3
  proof (intro ballI)
    fix p
    assume "p \<in> set ?next"
    with sub have "p = (filePath, HRef (Suc (length h))) \<or> p \<in> set ?ps" by blast
    then show "case p of (k, v) \<Rightarrow> \<forall>a. v = HRef a \<longrightarrow> a < length ?h3"
    proof
      assume "p = (filePath, HRef (Suc (length h)))"
      then show ?thesis by simp
    next
      assume "p \<in> set ?ps"
      with wfps have "case p of (k, v) \<Rightarrow> \<forall>a. v = HRef a \<longrightarrow> a < length h" by blast
      then show ?thesis by (cases p) auto
    qed
  qed
  have new: "entry_view ?h3 (HRef (Suc (length h))) = ?new"
    by (simp add: entry_view_def h_get_def props_def nth_append)
  have old: "map (\<lambda>(k, v). (k, entry_view ?h3 v)) ?ps = map (\<lambda>(k, v). (k, entry_view h v)) ?ps"
    using wfps by (intro map_cong refl) (auto simp: entry_view_extend)
  have view: "map (\<lambda>(k, v). (k, entry_view h v)) ?ps
                = (case map_option (cache_view h) cache of None \<Rightarrow> [] | Some c \<Rightarrow> c)"
    by (cases cache) (simp_all add: cache_view_def)
  have "cache_view ?h3 (length h) = map (\<lambda>(k, v). (k, entry_view ?h3 v)) ?next"
    unfolding cache_view_def p3 ..
  also have "\<dots> = js_define filePath (entry_view ?h3 (HRef (Suc (length h))))
                     (js_spread (map (\<lambda>(k, v). (k, entry_view ?h3 v)) ?ps))"
    by (simp only: map_values_define map_values_spread)
  also have "\<dots> = js_define filePath ?new
                     (js_spread (case map_option (cache_view h) cache of None \<Rightarrow> [] | Some c \<Rightarrow> c))"
    by (simp only: new old view)
  finally have copied: "cache_view ?h3 (length h)
      = js_define filePath ?new
          (js_spread (case map_option (cache_view h) cache of None \<Rightarrow> [] | Some c \<Rightarrow> c))" .
  from prune_store_refines [OF wf3 run3]
  show ?thesis unfolding copied by (simp add: upsertOllamaTitleCacheEntry_def Let_def)
qed

lemma case_field_view:
  "case_jsval a b c d e f g (field_view x) = case_hval a b c d e (\<lambda>r. g []) x"
  by (cases x) simp_all

lemma is_object_raw_view: "is_object (raw_view g raw) \<longleftrightarrow> is_ref raw"
  by (cases raw) (simp_all add: raw_view_def)

lemma js_get_raw_view:
  "is_ref raw \<Longrightarrow> js_get (raw_view g raw) name = field_view (h_get g raw name)"
  by (simp add: raw_view_def h_get_def map_values_map_of split: option.splits)

lemma sanitized_entry_raw_view:
  "sanitized_entry (raw_view g raw) =
     (if \<not> is_ref raw then None
      else
        case h_get g raw ''title'' of
          HStr t \<Rightarrow>
            if trim t = [] then None
            else
              let m = (case h_get g raw ''mtime'' of HNum n \<Rightarrow> n | _ \<Rightarrow> NaN) in
              if \<not> isFinite m \<or> num_negative m then None
              else
                Some \<lparr>mtime = m, title = t,
                      lastUsed =
                        (case h_get g raw ''lastUsed'' of
                           HNum n \<Rightarrow> if isFinite n then Some n else None
                         | _ \<Rightarrow> None)\<rparr>
        | _ \<Rightarrow> None)"
proof (cases "is_ref raw")
  case False
  then show ?thesis by (simp add: sanitized_entry_def is_object_raw_view)
next
  case True
  show ?thesis
    unfolding sanitized_entry_def is_object_raw_view js_get_raw_view [OF True] case_field_view
    by (simp add: True)
qed


lemma sanitize_step_store_eq:
  "sanitize_step_store out (key, raw) g =
     (case sanitized_entry (raw_view g raw) of
        None \<Rightarrow> g
      | Some e \<Rightarrow>
          (g @ [[(''mtime'', HNum (mtime e)), (''title'', HStr (title e)),
                 (''lastUsed'', case lastUsed e of None \<Rightarrow> HUndefined | Some n \<Rightarrow> HNum n)]])
          [out := js_assign key (HRef (length g))
                    ((g @ [[(''mtime'', HNum (mtime e)), (''title'', HStr (title e)),
                            (''lastUsed'', case lastUsed e of None \<Rightarrow> HUndefined | Some n \<Rightarrow> HNum n)]])
                       ! out)])"
proof (cases "is_ref raw")
  case False
  then show ?thesis by (simp add: sanitize_step_store_def sanitized_entry_raw_view)
next
  case True
  show ?thesis
  proof (cases "h_get g raw ''title''")
    case (HStr t)
    show ?thesis
    proof (cases "h_get g raw ''lastUsed''")
      case (HNum n)
      show ?thesis
        unfolding sanitize_step_store_def sanitized_entry_raw_view
        by (simp add: True HStr HNum Let_def alloc_def)
    qed (simp_all add: sanitize_step_store_def sanitized_entry_raw_view True HStr Let_def alloc_def)
  qed (simp_all add: sanitize_step_store_def sanitized_entry_raw_view True)
qed

lemma entry_view_allocated:
  assumes "a < length g"
    and "g ! a = [(''mtime'', HNum (mtime e)), (''title'', HStr (title e)),
                  (''lastUsed'', case lastUsed e of None \<Rightarrow> HUndefined | Some n \<Rightarrow> HNum n)]"
  shows "entry_view g (HRef a) = e"
  using assms
  by (cases "lastUsed e") (simp_all add: entry_view_def h_get_def props_def)

lemma entry_view_same:
  assumes "\<forall>a. v = HRef a \<longrightarrow> a < length g \<and> a < length g' \<and> g' ! a = g ! a"
  shows "entry_view g' v = entry_view g v"
  using assms by (cases v) (simp_all add: entry_view_def h_get_def props_def)

lemma raw_view_same:
  assumes "\<forall>a. v = HRef a \<longrightarrow> a < length g \<and> a < length g' \<and> g' ! a = g ! a"
  shows "raw_view g' v = raw_view g v"
  using assms by (cases v) (simp_all add: raw_view_def props_def)

lemma map_values_assign:
  "js_assign k (f v) (map (\<lambda>(k, v). (k, f v)) ps) = map (\<lambda>(k, v). (k, f v)) (js_assign k v ps)"
  by (simp add: js_assign_def map_values_define)

lemma js_assign_subset: "set (js_assign k v ps) \<subseteq> insert (k, v) (set ps)"
  using js_define_subset [of k v ps] by (auto simp: js_assign_def)

lemma sanitize_fold_store_refines:
  assumes old: "\<forall>(k, raw) \<in> set es. \<forall>a. raw = HRef a \<longrightarrow> a < length h"
    and pre: "take (length h) g = h"
    and out: "length h \<le> out" "out < length g"
    and refs: "\<forall>(k, v) \<in> set (g ! out). \<exists>a. v = HRef a \<and> out < a \<and> a < length g"
  shows "cache_view (fold (sanitize_step_store out) es g) out
           = fold (\<lambda>(key, raw) acc. case sanitized_entry raw of
                                       None \<Rightarrow> acc | Some e \<Rightarrow> js_assign key e acc)
               (map (\<lambda>(k, raw). (k, raw_view h raw)) es) (cache_view g out)"
  using old pre out(2) refs
proof (induction es arbitrary: g)
  case Nil
  show ?case by simp
next
  case (Cons p es)
  obtain key raw where p: "p = (key, raw)" by (cases p)
  from Cons.prems(1) have oldraw: "\<forall>a. raw = HRef a \<longrightarrow> a < length h"
    and oldes: "\<forall>(k, raw) \<in> set es. \<forall>a. raw = HRef a \<longrightarrow> a < length h"
    by (auto simp: p)
  note pre = Cons.prems(2) and outg = Cons.prems(3) and refs = Cons.prems(4)
  have lenh: "length h \<le> length g" using out(1) outg by simp
  have same: "g ! a = h ! a" if "a < length h" for a
    using that pre by (metis nth_take)
  have rv: "raw_view g raw = raw_view h raw"
    using oldraw lenh same by (intro raw_view_same) auto
  show ?case
  proof (cases "sanitized_entry (raw_view h raw)")
    case None
    then have "sanitize_step_store out (key, raw) g = g"
      by (simp add: sanitize_step_store_eq rv)
    with None show ?thesis
      using Cons.IH [OF oldes pre outg refs] by (simp add: p)
  next
    case (Some e)
    let ?obj = "[(''mtime'', HNum (mtime e)), (''title'', HStr (title e)),
                 (''lastUsed'', case lastUsed e of None \<Rightarrow> HUndefined | Some n \<Rightarrow> HNum n)]"
    let ?g' = "(g @ [?obj])[out := js_assign key (HRef (length g)) (g ! out)]"
    have step: "sanitize_step_store out (key, raw) g = ?g'"
      using Some outg by (simp add: sanitize_step_store_eq rv nth_append)
    have pre': "take (length h) ?g' = h" using pre out(1) outg by simp
    have outg': "out < length ?g'" using outg by simp
    have at_out: "?g' ! out = js_assign key (HRef (length g)) (g ! out)" using outg by simp
    have refs': "\<forall>(k, v) \<in> set (?g' ! out). \<exists>a. v = HRef a \<and> out < a \<and> a < length ?g'"
      unfolding at_out
    proof (intro ballI)
      fix q
      assume "q \<in> set (js_assign key (HRef (length g)) (g ! out))"
      with js_assign_subset have "q = (key, HRef (length g)) \<or> q \<in> set (g ! out)" by fastforce
      then show "case q of (k, v) \<Rightarrow> \<exists>a. v = HRef a \<and> out < a \<and> a < length ?g'"
      proof
        assume "q = (key, HRef (length g))"
        then show ?thesis using outg by simp
      next
        assume "q \<in> set (g ! out)"
        with refs have "case q of (k, v) \<Rightarrow> \<exists>a. v = HRef a \<and> out < a \<and> a < length g" by blast
        then show ?thesis by (cases q) auto
      qed
    qed
    have new: "entry_view ?g' (HRef (length g)) = e"
      using outg by (intro entry_view_allocated) (simp_all add: nth_append)
    have keep: "map (\<lambda>(k, v). (k, entry_view ?g' v)) (g ! out)
                  = map (\<lambda>(k, v). (k, entry_view g v)) (g ! out)"
    proof (intro map_cong refl)
      fix q
      assume q: "q \<in> set (g ! out)"
      with refs obtain k a where qa: "q = (k, HRef a)" and a: "out < a" "a < length g"
        by (cases q) fastforce
      have "entry_view ?g' (HRef a) = entry_view g (HRef a)"
        using a by (intro entry_view_same) (simp add: nth_append)
      then show "(case q of (k, v) \<Rightarrow> (k, entry_view ?g' v)) = (case q of (k, v) \<Rightarrow> (k, entry_view g v))"
        by (simp add: qa)
    qed
    have "cache_view ?g' out = map (\<lambda>(k, v). (k, entry_view ?g' v)) (js_assign key (HRef (length g)) (g ! out))"
      using outg' at_out by (simp add: cache_view_def props_def)
    also have "\<dots> = js_assign key (entry_view ?g' (HRef (length g)))
                       (map (\<lambda>(k, v). (k, entry_view ?g' v)) (g ! out))"
      by (simp only: map_values_assign)
    also have "\<dots> = js_assign key e (cache_view g out)"
      using outg by (simp add: new keep cache_view_def props_def)
    finally have view: "cache_view ?g' out = js_assign key e (cache_view g out)" .
    show ?thesis
      using Cons.IH [OF oldes pre' outg' refs'] Some
      by (simp add: p step view)
  qed
qed

lemma sanitize_store_refines:
  assumes wf: "\<forall>(k, raw) \<in> set (props h v). \<forall>a. raw = HRef a \<longrightarrow> a < length h"
    and run: "sanitizeOllamaTitleCache_store h v = (h', out)"
  shows "cache_view h' out = sanitizeOllamaTitleCache (value_view h v)"
proof (cases "is_ref v")
  case False
  with run have "h' = h @ [[]]" and "out = length h"
    by (auto simp: sanitizeOllamaTitleCache_store_def alloc_def)
  moreover have "\<not> is_object (value_view h v)"
    using False by (cases v) (simp_all add: value_view_def)
  ultimately show ?thesis
    by (simp add: cache_view_def props_def sanitizeOllamaTitleCache_def)
next
  case True
  with run have out: "out = length h"
    and h': "h' = fold (sanitize_step_store (length h)) (props h v) (h @ [[]])"
    by (auto simp: sanitizeOllamaTitleCache_store_def alloc_def)
  have "cache_view h' out
          = fold (\<lambda>(key, raw) acc. case sanitized_entry raw of
                                       None \<Rightarrow> acc | Some e \<Rightarrow> js_assign key e acc)
               (map (\<lambda>(k, raw). (k, raw_view h raw)) (props h v)) (cache_view (h @ [[]]) (length h))"
    unfolding out h' using wf by (intro sanitize_fold_store_refines) simp_all
  moreover have "cache_view (h @ [[]]) (length h) = []" by (simp add: cache_view_def props_def)
  ultimately show ?thesis
    using True by (simp add: sanitizeOllamaTitleCache_def value_view_def)
qed

section \<open>C1: the bound enforced by pruning\<close>

text \<open>
  Claim C1. For every cache (an object, so its keys are pairwise distinct) and every
  positive integer \<open>maxEntries\<close>, the cache returned by \<^verbatim>\<open>pruneOllamaTitleCache\<close> has at most
  \<open>maxEntries\<close> entries, and exactly \<open>maxEntries\<close> entries when the input has more.
\<close>

theorem prune_bound:
  assumes "distinct (map fst cache)" and "0 < n"
  shows "length (pruneOllamaTitleCache cache (Some (Num (of_nat n)))) \<le> n
         \<and> (n < length cache \<longrightarrow> length (pruneOllamaTitleCache cache (Some (Num (of_nat n)))) = n)"
proof (cases "n < length cache")
  case True
  then show ?thesis using prune_length_nat [OF assms True] by simp
next
  case False
  then have "pruneOllamaTitleCache cache (Some (Num (of_nat n))) = cache"
    by (simp add: pruneOllamaTitleCache_def Let_def)
  with False show ?thesis by simp
qed

theorem prune_bound_witness:
  "length (pruneOllamaTitleCache
     [(''a'', \<lparr>mtime = Num 1, title = ''A'', lastUsed = Some (Num 10)\<rparr>),
      (''b'', \<lparr>mtime = Num 1, title = ''B'', lastUsed = Some (Num 20)\<rparr>),
      (''c'', \<lparr>mtime = Num 1, title = ''C'', lastUsed = Some (Num 30)\<rparr>)]
     (Some (Num (of_nat 2)))) = 2"
proof -
  let ?cache = "[(''a'', \<lparr>mtime = Num 1, title = ''A'', lastUsed = Some (Num 10)\<rparr>),
      (''b'', \<lparr>mtime = Num 1, title = ''B'', lastUsed = Some (Num 20)\<rparr>),
      (''c'', \<lparr>mtime = Num 1, title = ''C'', lastUsed = Some (Num 30)\<rparr>)]"
  have d: "distinct (map fst ?cache)" by simp
  have p: "0 < (2::nat)" by simp
  from prune_bound [OF d p] show ?thesis by simp
qed

section \<open>C2: which entries pruning evicts\<close>

text \<open>
  Claim C2, as amended. For a cache whose entries all carry a finite \<open>lastUsed\<close>, pairwise
  distinct, and a positive integer \<open>maxEntries\<close> below the entry count, pruning retains
  exactly \<open>maxEntries\<close> entries of the input, and each retained entry has a larger
  \<open>lastUsed\<close> than every evicted one. For every cache, an entry without \<open>lastUsed\<close> is
  evicted before any entry whose \<open>lastUsed\<close> is a finite number greater than 0: pruning
  reads a missing \<open>lastUsed\<close> as 0, so an entry whose \<open>lastUsed\<close> is 0 or negative is not
  covered.
\<close>

theorem prune_eviction_order:
  assumes dist: "distinct (map fst cache)" and pos: "0 < n"
  shows "(n < length cache
            \<and> (\<forall>(k, e) \<in> set cache. \<exists>q. lastUsed e = Some (Num q))
            \<and> distinct (map (\<lambda>(k, e). lastUsed e) cache)
          \<longrightarrow> set (pruneOllamaTitleCache cache (Some (Num (of_nat n)))) \<subseteq> set cache
              \<and> length (pruneOllamaTitleCache cache (Some (Num (of_nat n)))) = n
              \<and> (\<forall>(k, e) \<in> set (pruneOllamaTitleCache cache (Some (Num (of_nat n)))).
                   \<forall>(k', e') \<in> set cache - set (pruneOllamaTitleCache cache (Some (Num (of_nat n)))).
                     \<exists>q q'. lastUsed e = Some (Num q) \<and> lastUsed e' = Some (Num q') \<and> q' < q))
       \<and> (\<forall>(k1, e1) \<in> set cache. \<forall>(k2, e2) \<in> set cache. \<forall>q.
             lastUsed e1 = None \<and> lastUsed e2 = Some (Num q) \<and> 0 < q
               \<and> (k2, e2) \<notin> set (pruneOllamaTitleCache cache (Some (Num (of_nat n))))
             \<longrightarrow> (k1, e1) \<notin> set (pruneOllamaTitleCache cache (Some (Num (of_nat n)))))"
proof -
  let ?R = "pruneOllamaTitleCache cache (Some (Num (of_nat n)))"
  have pos': "(0::rat) < of_nat n" using pos by simp
  have sub: "set ?R \<subseteq> set cache" by (rule prune_subset [OF dist])
  have part1: "set ?R \<subseteq> set cache \<and> length ?R = n
      \<and> (\<forall>(k, e) \<in> set ?R. \<forall>(k', e') \<in> set cache - set ?R.
            \<exists>q q'. lastUsed e = Some (Num q) \<and> lastUsed e' = Some (Num q') \<and> q' < q)"
    if big: "n < length cache"
      and fin: "\<forall>(k, e) \<in> set cache. \<exists>q. lastUsed e = Some (Num q)"
      and dl: "distinct (map (\<lambda>(k, e). lastUsed e) cache)"
  proof -
    have big': "(of_nat n :: rat) < of_nat (length cache)" using big by simp
    have len: "length ?R = n" by (rule prune_length_nat [OF dist pos big])
    have inj: "inj_on (\<lambda>(k, e). lastUsed e) (set cache)"
      using dl by (simp add: distinct_map)
    have "\<exists>q q'. lastUsed e = Some (Num q) \<and> lastUsed e' = Some (Num q') \<and> q' < q"
      if kept: "(k, e) \<in> set ?R" and inp: "(k', e') \<in> set cache" and gone: "(k', e') \<notin> set ?R"
      for k e k' e'
    proof -
      from kept sub have kc: "(k, e) \<in> set cache" by auto
      from fin kc obtain q where q: "lastUsed e = Some (Num q)" by auto
      from fin inp obtain q' where q': "lastUsed e' = Some (Num q')" by auto
      have "sortable_lastUsed (Some e') \<le> sortable_lastUsed (Some e)"
        by (rule prune_order [OF dist pos' big' kept inp gone])
      then have le: "q' \<le> q" using q q' by simp
      have "(k, e) \<noteq> (k', e')" using kept gone by auto
      then have "lastUsed e \<noteq> lastUsed e'"
        using inj kc inp by (auto simp: inj_on_def)
      with q q' le have "q' < q" by simp
      with q q' show ?thesis by simp
    qed
    then show ?thesis using sub len by auto
  qed
  have part2: "(k1, e1) \<notin> set ?R"
    if in1: "(k1, e1) \<in> set cache" and in2: "(k2, e2) \<in> set cache"
      and none: "lastUsed e1 = None" and some: "lastUsed e2 = Some (Num q)" and qpos: "0 < q"
      and gone: "(k2, e2) \<notin> set ?R"
    for k1 e1 k2 e2 q
  proof
    assume kept: "(k1, e1) \<in> set ?R"
    have big': "(of_nat n :: rat) < of_nat (length cache)"
    proof (rule ccontr)
      assume "\<not> (of_nat n :: rat) < of_nat (length cache)"
      then have "?R = cache" by (rule prune_same)
      with gone in2 show False by simp
    qed
    have "sortable_lastUsed (Some e2) \<le> sortable_lastUsed (Some e1)"
      by (rule prune_order [OF dist pos' big' kept in2 gone])
    with none some qpos show False by simp
  qed
  show ?thesis using part1 part2 by blast
qed

theorem prune_eviction_order_witness:
  "length (pruneOllamaTitleCache
     [(''a'', \<lparr>mtime = Num 1, title = ''A'', lastUsed = Some (Num 10)\<rparr>),
      (''b'', \<lparr>mtime = Num 1, title = ''B'', lastUsed = Some (Num 30)\<rparr>),
      (''c'', \<lparr>mtime = Num 1, title = ''C'', lastUsed = Some (Num 20)\<rparr>)]
     (Some (Num (of_nat 2)))) = 2
   \<and> (''a'', \<lparr>mtime = Num 1, title = ''A'', lastUsed = None\<rparr>)
       \<notin> set (pruneOllamaTitleCache
          [(''b'', \<lparr>mtime = Num 1, title = ''B'', lastUsed = Some (Num 5)\<rparr>),
           (''a'', \<lparr>mtime = Num 1, title = ''A'', lastUsed = None\<rparr>),
           (''c'', \<lparr>mtime = Num 1, title = ''C'', lastUsed = Some (Num 7)\<rparr>)]
          (Some (Num (of_nat 1))))"
proof -
  let ?c1 = "[(''a'', \<lparr>mtime = Num 1, title = ''A'', lastUsed = Some (Num 10)\<rparr>),
      (''b'', \<lparr>mtime = Num 1, title = ''B'', lastUsed = Some (Num 30)\<rparr>),
      (''c'', \<lparr>mtime = Num 1, title = ''C'', lastUsed = Some (Num 20)\<rparr>)]"
  let ?c2 = "[(''b'', \<lparr>mtime = Num 1, title = ''B'', lastUsed = Some (Num 5)\<rparr>),
           (''a'', \<lparr>mtime = Num 1, title = ''A'', lastUsed = None\<rparr>),
           (''c'', \<lparr>mtime = Num 1, title = ''C'', lastUsed = Some (Num 7)\<rparr>)]"
  have d1: "distinct (map fst ?c1)" and d2: "distinct (map fst ?c2)" by simp_all
  have p2: "0 < (2::nat)" and p1: "0 < (1::nat)" by simp_all
  have h1: "2 < length ?c1 \<and> (\<forall>(k, e) \<in> set ?c1. \<exists>q. lastUsed e = Some (Num q))
              \<and> distinct (map (\<lambda>(k, e). lastUsed e) ?c1)"
    by simp
  have first: "length (pruneOllamaTitleCache ?c1 (Some (Num (of_nat 2)))) = 2"
    using prune_eviction_order [OF d1 p2, THEN conjunct1, THEN mp, OF h1] by (elim conjE)
  have gone: "(''b'', \<lparr>mtime = Num 1, title = ''B'', lastUsed = Some (Num 5)\<rparr>)
                \<notin> set (pruneOllamaTitleCache ?c2 (Some (Num (of_nat 1))))"
    by (simp add: prune_eval)
  have second: "(''a'', \<lparr>mtime = Num 1, title = ''A'', lastUsed = None\<rparr>)
                  \<notin> set (pruneOllamaTitleCache ?c2 (Some (Num (of_nat 1))))"
    using prune_eviction_order [OF d2 p1, THEN conjunct2] gone by simp
  from first second show ?thesis by (rule conjI)
qed

theorem prune_missing_lastUsed_counterexample:
  "pruneOllamaTitleCache
     [(''a'', \<lparr>mtime = Num 1, title = ''A'', lastUsed = None\<rparr>),
      (''b'', \<lparr>mtime = Num 1, title = ''B'', lastUsed = Some (Num (- 5))\<rparr>)]
     (Some (Num 1))
   = [(''a'', \<lparr>mtime = Num 1, title = ''A'', lastUsed = None\<rparr>)]"
  by (simp add: prune_eval)

section \<open>C3: the entry an upsert writes\<close>




section \<open>C4: parsing title parts is all or nothing\<close>

text \<open>
  Claim C4. \<^verbatim>\<open>parseDailyTitleParts\<close> returns \<^verbatim>\<open>null\<close> when its argument is not a non-null
  object, or the \<open>keywords\<close> field is not an array, or the \<open>description\<close> field is not a
  string, or fewer than 3 keywords are non-empty after \<^verbatim>\<open>sanitizeWord\<close>, or the sanitized
  description is empty; otherwise it returns exactly the first 3 surviving keywords, in
  their order, with the sanitized description. The two inputs of the test
  (\<open>{keywords: ["a", "b"], description: "ok"}\<close> and \<^verbatim>\<open>null\<close>) give \<^verbatim>\<open>null\<close>.
\<close>

theorem parse_all_or_nothing:
  "(\<not> is_object v \<longrightarrow> parseDailyTitleParts v = None)
   \<and> ((\<forall>ks. js_get v ''keywords'' \<noteq> JArr ks) \<longrightarrow> parseDailyTitleParts v = None)
   \<and> ((\<forall>d. js_get v ''description'' \<noteq> JStr d) \<longrightarrow> parseDailyTitleParts v = None)
   \<and> (\<forall>ks. js_get v ''keywords'' = JArr ks
          \<and> length (filter (\<lambda>w. w \<noteq> [])
                (map (\<lambda>k. case k of JStr s \<Rightarrow> sanitizeWord s | _ \<Rightarrow> []) ks)) < 3
        \<longrightarrow> parseDailyTitleParts v = None)
   \<and> (\<forall>d. js_get v ''description'' = JStr d \<and> sanitizeDescription d = []
        \<longrightarrow> parseDailyTitleParts v = None)
   \<and> (\<forall>ks d. is_object v \<and> js_get v ''keywords'' = JArr ks \<and> js_get v ''description'' = JStr d
          \<and> 3 \<le> length (filter (\<lambda>w. w \<noteq> [])
                (map (\<lambda>k. case k of JStr s \<Rightarrow> sanitizeWord s | _ \<Rightarrow> []) ks))
          \<and> sanitizeDescription d \<noteq> []
        \<longrightarrow> parseDailyTitleParts v
            = Some \<lparr>keywords = take 3 (filter (\<lambda>w. w \<noteq> [])
                       (map (\<lambda>k. case k of JStr s \<Rightarrow> sanitizeWord s | _ \<Rightarrow> []) ks)),
                    description = sanitizeDescription d\<rparr>)
   \<and> parseDailyTitleParts
        (JObj [(''keywords'', JArr [JStr ''a'', JStr ''b'']), (''description'', JStr ''ok'')]) = None
   \<and> parseDailyTitleParts JNull = None"
proof (intro conjI impI allI)
  assume "\<not> is_object v"
  then show "parseDailyTitleParts v = None" by (simp add: parseDailyTitleParts_def)
next
  assume "\<forall>ks. js_get v ''keywords'' \<noteq> JArr ks"
  then show "parseDailyTitleParts v = None"
    by (cases "js_get v ''keywords''") (simp_all add: parseDailyTitleParts_def)
next
  assume "\<forall>d. js_get v ''description'' \<noteq> JStr d"
  then show "parseDailyTitleParts v = None"
    by (cases "js_get v ''description''"; cases "js_get v ''keywords''")
       (simp_all add: parseDailyTitleParts_def)
next
  fix ks
  assume "js_get v ''keywords'' = JArr ks
          \<and> length (filter (\<lambda>w. w \<noteq> [])
                (map (\<lambda>k. case k of JStr s \<Rightarrow> sanitizeWord s | _ \<Rightarrow> []) ks)) < 3"
  then show "parseDailyTitleParts v = None"
    by (cases "js_get v ''description''") (simp_all add: parseDailyTitleParts_def Let_def)
next
  fix d
  assume "js_get v ''description'' = JStr d \<and> sanitizeDescription d = []"
  then show "parseDailyTitleParts v = None"
    by (cases "js_get v ''keywords''") (simp_all add: parseDailyTitleParts_def Let_def)
next
  fix ks d
  assume "is_object v \<and> js_get v ''keywords'' = JArr ks \<and> js_get v ''description'' = JStr d
          \<and> 3 \<le> length (filter (\<lambda>w. w \<noteq> [])
                (map (\<lambda>k. case k of JStr s \<Rightarrow> sanitizeWord s | _ \<Rightarrow> []) ks))
          \<and> sanitizeDescription d \<noteq> []"
  then show "parseDailyTitleParts v
            = Some \<lparr>keywords = take 3 (filter (\<lambda>w. w \<noteq> [])
                       (map (\<lambda>k. case k of JStr s \<Rightarrow> sanitizeWord s | _ \<Rightarrow> []) ks)),
                    description = sanitizeDescription d\<rparr>"
    by (simp add: parseDailyTitleParts_def Let_def)
next
  show "parseDailyTitleParts
        (JObj [(''keywords'', JArr [JStr ''a'', JStr ''b'']), (''description'', JStr ''ok'')]) = None"
    by (simp add: parseDailyTitleParts_def Let_def)
next
  show "parseDailyTitleParts JNull = None" by (simp add: parseDailyTitleParts_def)
qed

theorem parse_all_or_nothing_witness:
  "parseDailyTitleParts
     (JObj [(''keywords'', JArr [JStr ''Work,'', JStr ''Deep\<newline>Focus'', JStr ''planning!'', JNull, JStr ''extra'']),
            (''description'', JStr ''Did a lot.\<newline>Newline!'')])
   = Some \<lparr>keywords = [''Work'', ''Deep'', ''planning''], description = ''Did a lot. Newline!''\<rparr>
   \<and> parseDailyTitleParts (JObj [(''keywords'', JArr [JStr ''a'', JStr ''?'', JStr ''c'']),
                                 (''description'', JStr ''ok'')]) = None
   \<and> parseDailyTitleParts (JObj [(''keywords'', JArr [JStr ''a'', JStr ''b'', JStr ''c'']),
                                 (''description'', JNum (Num 1))]) = None"
proof -
  let ?ks = "[JStr ''Work,'', JStr ''Deep\<newline>Focus'', JStr ''planning!'', JNull, JStr ''extra'']"
  let ?v = "JObj [(''keywords'', JArr ?ks), (''description'', JStr ''Did a lot.\<newline>Newline!'')]"
  let ?few = "JObj [(''keywords'', JArr [JStr ''a'', JStr ''?'', JStr ''c'']),
                    (''description'', JStr ''ok'')]"
  let ?nodesc = "JObj [(''keywords'', JArr [JStr ''a'', JStr ''b'', JStr ''c'']),
                       (''description'', JNum (Num 1))]"
  have words: "filter (\<lambda>w. w \<noteq> []) (map (\<lambda>k. case k of JStr s \<Rightarrow> sanitizeWord s | _ \<Rightarrow> []) ?ks)
                 = [''Work'', ''Deep'', ''planning'', ''extra'']"
    by (simp add: title_eval)
  have desc: "sanitizeDescription ''Did a lot.\<newline>Newline!'' = ''Did a lot. Newline!''"
    by (simp add: title_eval)
  have h: "is_object ?v \<and> js_get ?v ''keywords'' = JArr ?ks
           \<and> js_get ?v ''description'' = JStr ''Did a lot.\<newline>Newline!''
           \<and> 3 \<le> length (filter (\<lambda>w. w \<noteq> [])
                 (map (\<lambda>k. case k of JStr s \<Rightarrow> sanitizeWord s | _ \<Rightarrow> []) ?ks))
           \<and> sanitizeDescription ''Did a lot.\<newline>Newline!'' \<noteq> []"
    unfolding words desc by simp
  note all = parse_all_or_nothing
  have ok: "parseDailyTitleParts ?v
              = Some \<lparr>keywords = [''Work'', ''Deep'', ''planning''], description = ''Did a lot. Newline!''\<rparr>"
    using all [of ?v, THEN conjunct2, THEN conjunct2, THEN conjunct2, THEN conjunct2,
        THEN conjunct2, THEN conjunct1, THEN spec, THEN spec, THEN mp, OF h]
    unfolding words desc by simp
  have fewh: "js_get ?few ''keywords'' = JArr [JStr ''a'', JStr ''?'', JStr ''c'']
           \<and> length (filter (\<lambda>w. w \<noteq> [])
                 (map (\<lambda>k. case k of JStr s \<Rightarrow> sanitizeWord s | _ \<Rightarrow> [])
                    [JStr ''a'', JStr ''?'', JStr ''c''])) < 3"
    by (simp add: title_eval)
  have few: "parseDailyTitleParts ?few = None"
    using all [of ?few, THEN conjunct2, THEN conjunct2, THEN conjunct2, THEN conjunct1,
        THEN spec, THEN mp, OF fewh] .
  have nd: "\<forall>d. js_get ?nodesc ''description'' \<noteq> JStr d" by simp
  have nodesc: "parseDailyTitleParts ?nodesc = None"
    using all [of ?nodesc, THEN conjunct2, THEN conjunct2, THEN conjunct1, THEN mp, OF nd] .
  from ok few nodesc show ?thesis by (intro conjI)
qed

section \<open>C5: what the sanitizer stores\<close>

text \<open>
  Claim C5, as amended. Every entry of the map returned by \<^verbatim>\<open>sanitizeOllamaTitleCache\<close>
  comes from a raw entry under the same key that passed validation: the raw value is an
  object, its title is a string that is not empty after trimming and is stored unchanged,
  its mtime is a finite number that is at least 0, and its \<open>lastUsed\<close> is carried through
  when it is a finite number and omitted otherwise. A raw entry that violates one of
  these is absent from the result. The keys are those of the input (an object or an
  array, so pairwise distinct) and are not checked for being empty: every raw entry that
  passes validation is stored under its own key, the empty string included, with one
  exception. The assignment \<^verbatim>\<open>out["__proto__"] = ...\<close> creates no own property, so
  \<^verbatim>\<open>"__proto__"\<close> is never a key of the result.
\<close>

theorem sanitize_entries_valid:
  assumes "distinct (map fst (object_entries x))"
  shows "(\<forall>(k, e) \<in> set (sanitizeOllamaTitleCache x).
            \<exists>raw. (k, raw) \<in> set (object_entries x) \<and> is_object raw
              \<and> js_get raw ''title'' = JStr (title e) \<and> trim (title e) \<noteq> []
              \<and> (\<exists>q. js_get raw ''mtime'' = JNum (Num q) \<and> mtime e = Num q \<and> 0 \<le> q)
              \<and> lastUsed e = (case js_get raw ''lastUsed'' of
                                 JNum (Num q) \<Rightarrow> Some (Num q) | _ \<Rightarrow> None))
       \<and> (\<forall>(k, raw) \<in> set (object_entries x).
            \<not> is_object raw \<or> (\<forall>t. js_get raw ''title'' = JStr t \<longrightarrow> trim t = [])
              \<or> (\<forall>q. js_get raw ''mtime'' = JNum (Num q) \<longrightarrow> q < 0)
            \<longrightarrow> k \<notin> fst ` set (sanitizeOllamaTitleCache x))
       \<and> (\<forall>(k, raw) \<in> set (object_entries x). \<forall>t q.
            k \<noteq> ''__proto__'' \<and> is_object raw \<and> js_get raw ''title'' = JStr t \<and> trim t \<noteq> []
              \<and> js_get raw ''mtime'' = JNum (Num q) \<and> 0 \<le> q
            \<longrightarrow> (k, \<lparr>mtime = Num q, title = t,
                      lastUsed = (case js_get raw ''lastUsed'' of
                                    JNum (Num r) \<Rightarrow> Some (Num r) | _ \<Rightarrow> None)\<rparr>)
                  \<in> set (sanitizeOllamaTitleCache x))
       \<and> ''__proto__'' \<notin> fst ` set (sanitizeOllamaTitleCache x)"
proof (intro conjI ballI)
  fix p
  assume p: "p \<in> set (sanitizeOllamaTitleCache x)"
  obtain k e where ke: "p = (k, e)" by (cases p)
  from sanitize_sound [of k e x] p ke obtain raw
    where raw: "(k, raw) \<in> set (object_entries x)" and ok: "sanitized_entry raw = Some e"
    by blast
  from sanitized_entry_Some [OF ok] raw
  show "case p of (k, e) \<Rightarrow>
          \<exists>raw. (k, raw) \<in> set (object_entries x) \<and> is_object raw
            \<and> js_get raw ''title'' = JStr (title e) \<and> trim (title e) \<noteq> []
            \<and> (\<exists>q. js_get raw ''mtime'' = JNum (Num q) \<and> mtime e = Num q \<and> 0 \<le> q)
            \<and> lastUsed e = (case js_get raw ''lastUsed'' of
                               JNum (Num q) \<Rightarrow> Some (Num q) | _ \<Rightarrow> None)"
    unfolding ke by blast
next
  fix p
  assume p: "p \<in> set (object_entries x)"
  obtain k raw where kr: "p = (k, raw)" by (cases p)
  have "k \<notin> fst ` set (sanitizeOllamaTitleCache x)"
    if bad: "\<not> is_object raw \<or> (\<forall>t. js_get raw ''title'' = JStr t \<longrightarrow> trim t = [])
              \<or> (\<forall>q. js_get raw ''mtime'' = JNum (Num q) \<longrightarrow> q < 0)"
  proof
    assume "k \<in> fst ` set (sanitizeOllamaTitleCache x)"
    then obtain e where "(k, e) \<in> set (sanitizeOllamaTitleCache x)" by force
    from sanitize_sound [OF this] obtain raw'
      where raw': "(k, raw') \<in> set (object_entries x)" and ok: "sanitized_entry raw' = Some e"
      by blast
    from raw' p kr assms have "raw' = raw" by (metis distinct_member_map_of option.inject)
    with ok sanitized_entry_None [OF bad] show False by simp
  qed
  then show "case p of (k, raw) \<Rightarrow>
          \<not> is_object raw \<or> (\<forall>t. js_get raw ''title'' = JStr t \<longrightarrow> trim t = [])
            \<or> (\<forall>q. js_get raw ''mtime'' = JNum (Num q) \<longrightarrow> q < 0)
          \<longrightarrow> k \<notin> fst ` set (sanitizeOllamaTitleCache x)"
    unfolding kr by simp
next
  fix p
  assume p: "p \<in> set (object_entries x)"
  obtain k raw where kr: "p = (k, raw)" by (cases p)
  have "(k, \<lparr>mtime = Num q, title = t,
             lastUsed = (case js_get raw ''lastUsed'' of
                           JNum (Num r) \<Rightarrow> Some (Num r) | _ \<Rightarrow> None)\<rparr>)
          \<in> set (sanitizeOllamaTitleCache x)"
    if k: "k \<noteq> ''__proto__''" and o: "is_object raw"
      and t: "js_get raw ''title'' = JStr t" "trim t \<noteq> []"
      and m: "js_get raw ''mtime'' = JNum (Num q)" "0 \<le> q" for t q
  proof -
    from p kr have "(k, raw) \<in> set (object_entries x)" by simp
    from assms this sanitized_entry_valid [OF o t m] k
    show ?thesis by (rule sanitize_complete_entries)
  qed
  then show "case p of (k, raw) \<Rightarrow> \<forall>t q.
          k \<noteq> ''__proto__'' \<and> is_object raw \<and> js_get raw ''title'' = JStr t \<and> trim t \<noteq> []
            \<and> js_get raw ''mtime'' = JNum (Num q) \<and> 0 \<le> q
          \<longrightarrow> (k, \<lparr>mtime = Num q, title = t,
                    lastUsed = (case js_get raw ''lastUsed'' of
                                  JNum (Num r) \<Rightarrow> Some (Num r) | _ \<Rightarrow> None)\<rparr>)
                \<in> set (sanitizeOllamaTitleCache x)"
    unfolding kr by simp
next
  show "''__proto__'' \<notin> fst ` set (sanitizeOllamaTitleCache x)"
    by (rule sanitize_no_proto)
qed

theorem sanitize_entries_valid_witness:
  "title (the (map_of (sanitizeOllamaTitleCache
        (JObj [(''ok'', JObj [(''mtime'', JNum (Num 123)), (''title'', JStr ''Hello''),
                              (''lastUsed'', JNum NaN)]),
               (''bad'', JObj [(''mtime'', JNum (Num 1)), (''title'', JStr '' '')]),
               ('''', JObj [(''mtime'', JNum (Num 0)), (''title'', JStr ''A'')]),
               (''__proto__'', JObj [(''mtime'', JNum (Num 2)), (''title'', JStr ''P'')])]))
      ''ok'')) = ''Hello''
   \<and> ''bad'' \<notin> fst ` set (sanitizeOllamaTitleCache
        (JObj [(''ok'', JObj [(''mtime'', JNum (Num 123)), (''title'', JStr ''Hello''),
                              (''lastUsed'', JNum NaN)]),
               (''bad'', JObj [(''mtime'', JNum (Num 1)), (''title'', JStr '' '')]),
               ('''', JObj [(''mtime'', JNum (Num 0)), (''title'', JStr ''A'')]),
               (''__proto__'', JObj [(''mtime'', JNum (Num 2)), (''title'', JStr ''P'')])]))
   \<and> ('''', \<lparr>mtime = Num 0, title = ''A'', lastUsed = None\<rparr>)
       \<in> set (sanitizeOllamaTitleCache
        (JObj [(''ok'', JObj [(''mtime'', JNum (Num 123)), (''title'', JStr ''Hello''),
                              (''lastUsed'', JNum NaN)]),
               (''bad'', JObj [(''mtime'', JNum (Num 1)), (''title'', JStr '' '')]),
               ('''', JObj [(''mtime'', JNum (Num 0)), (''title'', JStr ''A'')]),
               (''__proto__'', JObj [(''mtime'', JNum (Num 2)), (''title'', JStr ''P'')])]))
   \<and> ''__proto__'' \<notin> fst ` set (sanitizeOllamaTitleCache
        (JObj [(''ok'', JObj [(''mtime'', JNum (Num 123)), (''title'', JStr ''Hello''),
                              (''lastUsed'', JNum NaN)]),
               (''bad'', JObj [(''mtime'', JNum (Num 1)), (''title'', JStr '' '')]),
               ('''', JObj [(''mtime'', JNum (Num 0)), (''title'', JStr ''A'')]),
               (''__proto__'', JObj [(''mtime'', JNum (Num 2)), (''title'', JStr ''P'')])]))"
proof -
  let ?ok = "JObj [(''mtime'', JNum (Num 123)), (''title'', JStr ''Hello''), (''lastUsed'', JNum NaN)]"
  let ?bad = "JObj [(''mtime'', JNum (Num 1)), (''title'', JStr '' '')]"
  let ?empty = "JObj [(''mtime'', JNum (Num 0)), (''title'', JStr ''A'')]"
  let ?proto = "JObj [(''mtime'', JNum (Num 2)), (''title'', JStr ''P'')]"
  let ?x = "JObj [(''ok'', ?ok), (''bad'', ?bad), ('''', ?empty), (''__proto__'', ?proto)]"
  have d: "distinct (map fst (object_entries ?x))" by simp
  note valid = sanitize_entries_valid [OF d]
  note sound = valid [THEN conjunct1]
  note rejected = valid [THEN conjunct2, THEN conjunct1]
  note stored = valid [THEN conjunct2, THEN conjunct2, THEN conjunct1]
  note proto = valid [THEN conjunct2, THEN conjunct2, THEN conjunct2]
  have mo: "(''ok'', ?ok) \<in> set (object_entries ?x)" by simp
  have vo: "''ok'' \<noteq> ''__proto__'' \<and> is_object ?ok \<and> js_get ?ok ''title'' = JStr ''Hello''
              \<and> trim ''Hello'' \<noteq> [] \<and> js_get ?ok ''mtime'' = JNum (Num 123) \<and> (0::rat) \<le> 123"
    by (simp add: trim_def is_space_def)
  from stored [THEN bspec, OF mo] vo
  have "(''ok'', \<lparr>mtime = Num 123, title = ''Hello'',
                   lastUsed = (case js_get ?ok ''lastUsed'' of
                                 JNum (Num r) \<Rightarrow> Some (Num r) | _ \<Rightarrow> None)\<rparr>)
          \<in> set (sanitizeOllamaTitleCache ?x)"
    by blast
  then have kept: "(''ok'', \<lparr>mtime = Num 123, title = ''Hello'', lastUsed = None\<rparr>)
                     \<in> set (sanitizeOllamaTitleCache ?x)"
    by simp
  have the_ok: "map_of (sanitizeOllamaTitleCache ?x) ''ok''
                  = Some \<lparr>mtime = Num 123, title = ''Hello'', lastUsed = None\<rparr>"
    using sanitize_distinct kept by (rule map_of_is_SomeI)
  from sound [THEN bspec, OF kept]
  have "\<exists>raw. (''ok'', raw) \<in> set (object_entries ?x)
          \<and> js_get raw ''title'' = JStr (title \<lparr>mtime = Num 123, title = ''Hello'', lastUsed = None\<rparr>)"
    by blast
  with the_ok have first: "title (the (map_of (sanitizeOllamaTitleCache ?x) ''ok'')) = ''Hello''"
    by simp
  have mb: "(''bad'', ?bad) \<in> set (object_entries ?x)" by simp
  have bad: "\<not> is_object ?bad \<or> (\<forall>t. js_get ?bad ''title'' = JStr t \<longrightarrow> trim t = [])
               \<or> (\<forall>q. js_get ?bad ''mtime'' = JNum (Num q) \<longrightarrow> q < 0)"
    by (simp add: trim_def is_space_def)
  have second: "''bad'' \<notin> fst ` set (sanitizeOllamaTitleCache ?x)"
    using rejected [THEN bspec, OF mb] bad by blast
  have me: "('''', ?empty) \<in> set (object_entries ?x)" by simp
  have ve: "'''' \<noteq> ''__proto__'' \<and> is_object ?empty \<and> js_get ?empty ''title'' = JStr ''A''
              \<and> trim ''A'' \<noteq> [] \<and> js_get ?empty ''mtime'' = JNum (Num 0) \<and> (0::rat) \<le> 0"
    by (simp add: trim_def is_space_def)
  from stored [THEN bspec, OF me] ve
  have "('''', \<lparr>mtime = Num 0, title = ''A'',
                 lastUsed = (case js_get ?empty ''lastUsed'' of
                               JNum (Num r) \<Rightarrow> Some (Num r) | _ \<Rightarrow> None)\<rparr>)
          \<in> set (sanitizeOllamaTitleCache ?x)"
    by blast
  then have third: "('''', \<lparr>mtime = Num 0, title = ''A'', lastUsed = None\<rparr>)
                      \<in> set (sanitizeOllamaTitleCache ?x)"
    by simp
  from first second third proto show ?thesis by (intro conjI)
qed

theorem sanitize_empty_key_counterexample:
  "sanitizeOllamaTitleCache (JObj [('''', JObj [(''mtime'', JNum (Num 1)), (''title'', JStr ''A'')])])
     = [('''', \<lparr>mtime = Num 1, title = ''A'', lastUsed = None\<rparr>)]"
  by (simp add: sanitize_eval)

section \<open>C6: sanitizing twice\<close>

text \<open>
  Claim C6. \<^verbatim>\<open>sanitizeOllamaTitleCache\<close> is idempotent: for every input value, sanitizing
  the plain-map view of a sanitized cache yields a map equal to that cache (the same
  keys, each with the same entry).
\<close>

theorem sanitize_idempotent:
  "map_of (sanitizeOllamaTitleCache (cache_value (sanitizeOllamaTitleCache x)))
     = map_of (sanitizeOllamaTitleCache x)
   \<and> length (sanitizeOllamaTitleCache (cache_value (sanitizeOllamaTitleCache x)))
     = length (sanitizeOllamaTitleCache x)"
proof -
  let ?S = "sanitizeOllamaTitleCache x"
  let ?ps = "map (\<lambda>(k, e). (k, entry_value e)) ?S"
  let ?S' = "sanitizeOllamaTitleCache (cache_value ?S)"
  have cv: "cache_value ?S = JObj ?ps" by (simp add: cache_value_def)
  have keys: "map fst ?ps = map fst ?S" by (induction ?S) auto
  have dps: "distinct (map fst ?ps)" unfolding keys by (rule sanitize_distinct)
  have fwd: "(k, e) \<in> set ?S'" if "(k, e) \<in> set ?S" for k e
  proof -
    from sanitize_sound [OF that] obtain raw
      where np: "k \<noteq> ''__proto__''" and ok: "sanitized_entry raw = Some e" by blast
    have "(k, entry_value e) \<in> set ?ps" using that by force
    then show ?thesis
      unfolding cv using sanitized_entry_roundtrip [OF ok] np
      by (rule sanitize_complete [OF dps])
  qed
  have bwd: "(k, e) \<in> set ?S" if "(k, e) \<in> set ?S'" for k e
  proof -
    from sanitize_sound [OF that] obtain raw
      where raw: "(k, raw) \<in> set (object_entries (cache_value ?S))"
        and ok: "sanitized_entry raw = Some e" by blast
    from raw obtain e' where e': "(k, e') \<in> set ?S" and r: "raw = entry_value e'"
      unfolding cv by auto
    from sanitize_sound [OF e'] obtain raw'
      where "sanitized_entry raw' = Some e'" by blast
    then have "sanitized_entry (entry_value e') = Some e'" by (rule sanitized_entry_roundtrip)
    with ok r have "e = e'" by simp
    with e' show ?thesis by simp
  qed
  have seteq: "set ?S' = set ?S" using fwd bwd by auto
  then have "map_of ?S' = map_of ?S"
    using sanitize_distinct map_of_inject_set by blast
  moreover have "length ?S' = length ?S"
    using seteq distinct_keys_length [OF sanitize_distinct] by (metis)
  ultimately show ?thesis by simp
qed

section \<open>C7: stripping the frontmatter\<close>

text \<open>
  Claim C7, as amended. A line is a fence when it is \<^verbatim>\<open>---\<close> after trimming its surrounding
  whitespace. \<^verbatim>\<open>stripYamlFrontmatter\<close> returns its input unchanged when the first line is
  not a fence, or fewer than 3 lines exist, or no line after the first is a fence;
  otherwise it returns the lines strictly after the first fence that follows the first
  line, joined by a line feed. On the text of the test it returns the heading and the
  content.
\<close>

theorem strip_frontmatter:
  "(trim (hd (split_lines t)) \<noteq> ''---'' \<or> length (split_lines t) < 3
      \<or> (\<forall>i. 1 \<le> i \<and> i < length (split_lines t) \<longrightarrow> trim (split_lines t ! i) \<noteq> ''---'')
    \<longrightarrow> stripYamlFrontmatter t = t)
   \<and> (\<forall>i. trim (hd (split_lines t)) = ''---'' \<and> 3 \<le> length (split_lines t)
          \<and> 1 \<le> i \<and> i < length (split_lines t) \<and> trim (split_lines t ! i) = ''---''
          \<and> (\<forall>j. 1 \<le> j \<and> j < i \<longrightarrow> trim (split_lines t ! j) \<noteq> ''---'')
        \<longrightarrow> stripYamlFrontmatter t = join ''\<newline>'' (drop (Suc i) (split_lines t)))
   \<and> stripYamlFrontmatter
        ''---\<newline>title: hello\<newline>tags: [a]\<newline>---\<newline># Heading\<newline>Content''
      = ''# Heading\<newline>Content''"
proof (intro conjI impI allI)
  let ?ls = "split_lines t"
  assume h: "trim (hd ?ls) \<noteq> ''---'' \<or> length ?ls < 3
      \<or> (\<forall>i. 1 \<le> i \<and> i < length ?ls \<longrightarrow> trim (?ls ! i) \<noteq> ''---'')"
  show "stripYamlFrontmatter t = t"
  proof (cases "trim (hd ?ls) \<noteq> ''---'' \<or> length ?ls < 3")
    case True
    then show ?thesis by (auto simp: stripYamlFrontmatter_def Let_def)
  next
    case False
    with h have nofence: "\<forall>i. 1 \<le> i \<and> i < length ?ls \<longrightarrow> trim (?ls ! i) \<noteq> ''---''" by blast
    have "trim l \<noteq> ''---''" if "l \<in> set (tl ?ls)" for l
    proof -
      from that obtain j where j: "j < length (tl ?ls)" and l: "l = tl ?ls ! j"
        by (auto simp: in_set_conv_nth)
      then have "l = ?ls ! Suc j" by (simp add: nth_tl)
      moreover have "Suc j < length ?ls" using j by simp
      ultimately show ?thesis using nofence by simp
    qed
    then have dw: "dropWhile (\<lambda>l. trim l \<noteq> ''---'') (tl ?ls) = []" by simp
    show ?thesis unfolding stripYamlFrontmatter_def Let_def dw by simp
  qed
next
  fix i
  let ?ls = "split_lines t"
  assume h: "trim (hd ?ls) = ''---'' \<and> 3 \<le> length ?ls
          \<and> 1 \<le> i \<and> i < length ?ls \<and> trim (?ls ! i) = ''---''
          \<and> (\<forall>j. 1 \<le> j \<and> j < i \<longrightarrow> trim (?ls ! j) \<noteq> ''---'')"
  then obtain n where n: "i = Suc n" by (cases i) auto
  have t: "t \<noteq> []" using h by (cases t) auto
  have "Suc n < length ?ls" using h n by simp
  then have len: "n < length (tl ?ls)" by (simp add: less_diff_conv)
  have at: "tl ?ls ! n = ?ls ! i" using len n by (simp add: nth_tl)
  have before: "\<forall>j < n. trim (tl ?ls ! j) \<noteq> ''---''"
  proof (intro allI impI)
    fix j
    assume "j < n"
    then have "tl ?ls ! j = ?ls ! Suc j" using len by (simp add: nth_tl)
    moreover have "trim (?ls ! Suc j) \<noteq> ''---''" using h n \<open>j < n\<close> by simp
    ultimately show "trim (tl ?ls ! j) \<noteq> ''---''" by simp
  qed
  have dw: "dropWhile (\<lambda>l. trim l \<noteq> ''---'') (tl ?ls) = tl ?ls ! n # drop (Suc n) (tl ?ls)"
    using len before h at by (intro dropWhile_first) simp_all
  have dr: "drop (Suc n) (tl ?ls) = drop (Suc i) ?ls"
    by (simp add: n drop_Suc)
  show "stripYamlFrontmatter t = join ''\<newline>'' (drop (Suc i) ?ls)"
    unfolding stripYamlFrontmatter_def Let_def dw dr using h t by simp
next
  show "stripYamlFrontmatter
        ''---\<newline>title: hello\<newline>tags: [a]\<newline>---\<newline># Heading\<newline>Content''
      = ''# Heading\<newline>Content''"
    by (simp add: stripYamlFrontmatter_def trim_def is_space_def)
qed

theorem strip_frontmatter_witness:
  "stripYamlFrontmatter ''---\<newline>title: hello\<newline># Heading'' = ''---\<newline>title: hello\<newline># Heading''
   \<and> stripYamlFrontmatter ''---\<newline>a: b\<newline> --- \<newline>body\<newline>---\<newline>tail'' = ''body\<newline>---\<newline>tail''"
proof -
  let ?open = "''---\<newline>title: hello\<newline># Heading''"
  let ?closed = "''---\<newline>a: b\<newline> --- \<newline>body\<newline>---\<newline>tail''"
  have lo: "split_lines ?open = [''---'', ''title: hello'', ''# Heading'']" by simp
  have lc: "split_lines ?closed = [''---'', ''a: b'', '' --- '', ''body'', ''---'', ''tail'']" by simp
  have nofence: "\<forall>i. 1 \<le> i \<and> i < length (split_lines ?open) \<longrightarrow> trim (split_lines ?open ! i) \<noteq> ''---''"
  proof (intro allI impI)
    fix i
    assume "1 \<le> i \<and> i < length (split_lines ?open)"
    then have "i = 1 \<or> i = 2" unfolding lo by auto
    then show "trim (split_lines ?open ! i) \<noteq> ''---''"
      unfolding lo by (auto simp: trim_def is_space_def)
  qed
  then have h1: "trim (hd (split_lines ?open)) \<noteq> ''---'' \<or> length (split_lines ?open) < 3
      \<or> (\<forall>i. 1 \<le> i \<and> i < length (split_lines ?open) \<longrightarrow> trim (split_lines ?open ! i) \<noteq> ''---'')"
    by (intro disjI2)
  have first: "stripYamlFrontmatter ?open = ?open"
    using strip_frontmatter [of ?open, THEN conjunct1, THEN mp, OF h1] .
  have before: "\<forall>j. 1 \<le> j \<and> j < 2 \<longrightarrow> trim (split_lines ?closed ! j) \<noteq> ''---''"
  proof (intro allI impI)
    fix j :: nat
    assume "1 \<le> j \<and> j < 2"
    then have "j = 1" by auto
    then show "trim (split_lines ?closed ! j) \<noteq> ''---''"
      unfolding lc by (simp add: trim_def is_space_def)
  qed
  have h2: "trim (hd (split_lines ?closed)) = ''---'' \<and> 3 \<le> length (split_lines ?closed)
          \<and> 1 \<le> (2::nat) \<and> 2 < length (split_lines ?closed) \<and> trim (split_lines ?closed ! 2) = ''---''
          \<and> (\<forall>j. 1 \<le> j \<and> j < 2 \<longrightarrow> trim (split_lines ?closed ! j) \<noteq> ''---'')"
    using before unfolding lc by (simp add: trim_def is_space_def)
  have second: "stripYamlFrontmatter ?closed = join ''\<newline>'' (drop (Suc 2) (split_lines ?closed))"
    using strip_frontmatter [of ?closed, THEN conjunct2, THEN conjunct1, THEN spec, THEN mp, OF h2] .
  have "join ''\<newline>'' (drop (Suc 2) (split_lines ?closed)) = ''body\<newline>---\<newline>tail''"
    unfolding lc by simp
  with first second show ?thesis by simp
qed

theorem strip_frontmatter_padded_fence_counterexample:
  "hd (split_lines '' ---\<newline>a\<newline>---\<newline>b'') \<noteq> ''---''
   \<and> stripYamlFrontmatter '' ---\<newline>a\<newline>---\<newline>b'' = ''b''"
  by (simp add: stripYamlFrontmatter_def trim_def is_space_def)

section \<open>C8: the shape of a parsed keyword\<close>

text \<open>
  Claim C8 says that every keyword of a successful parse has no leading or trailing
  character other than a letter or a digit. \<^verbatim>\<open>sanitizeWord\<close> strips the trailing
  punctuation of the whole string and only then cuts it at its first space, so the first
  word of a keyword of several words keeps the punctuation that followed it: the keyword
  \<open>"hello, world"\<close> is returned as \<open>"hello,"\<close>.
\<close>

theorem parse_keeps_inner_punctuation:
  "parseDailyTitleParts
     (JObj [(''keywords'', JArr [JStr ''hello, world'', JStr ''b'', JStr ''c'']),
            (''description'', JStr ''ok'')])
   = Some \<lparr>keywords = [''hello,'', ''b'', ''c''], description = ''ok''\<rparr>"
  by (simp add: title_eval)

section \<open>C9: the cache operations leave their input as it is\<close>

text \<open>
  Claim C9. On the store, \<^verbatim>\<open>sanitizeOllamaTitleCache\<close>, \<^verbatim>\<open>upsertOllamaTitleCacheEntry\<close> and
  \<^verbatim>\<open>pruneOllamaTitleCache\<close> leave every object that existed before the call unchanged
  (the input mapping, its key set and each of its entries among them); the first two
  return a newly allocated object. \<^verbatim>\<open>pruneOllamaTitleCache\<close> returns either the address it
  was given, with the store untouched, or a newly allocated object; it returns the
  address it was given when \<open>maxEntries\<close> is absent, zero or negative, or when the entry
  count is at most \<open>maxEntries\<close>; and every property of the object it returns is a
  property of the input with the same key and the same value, so a retained entry is
  the very object the input held.
\<close>

theorem cache_operations_preserve_input:
  "(case sanitizeOllamaTitleCache_store h v of
      (h', out) \<Rightarrow> take (length h) h' = h \<and> length h \<le> out \<and> out < length h')
   \<and> (case upsertOllamaTitleCacheEntry_store date_now h cache filePath entry maxEntries nowMs of
      (h', r) \<Rightarrow> take (length h) h' = h \<and> length h \<le> r \<and> r < length h')
   \<and> (c < length h \<longrightarrow>
        (case pruneOllamaTitleCache_store h c maxEntries of
           (h', r) \<Rightarrow>
             take (length h) h' = h
             \<and> (r = c \<and> h' = h \<or> length h \<le> r \<and> r < length h')
             \<and> set (h' ! r) \<subseteq> set (h ! c)
             \<and> (maxEntries = None
                  \<or> (\<exists>q. maxEntries = Some (Num q) \<and> (q \<le> 0 \<or> of_nat (length (h ! c)) \<le> q))
                 \<longrightarrow> r = c \<and> h' = h)))"
proof (intro conjI impI)
  obtain h' out where s: "sanitizeOllamaTitleCache_store h v = (h', out)" by force
  from sanitize_store_frame [OF s]
  show "case sanitizeOllamaTitleCache_store h v of
      (h', out) \<Rightarrow> take (length h) h' = h \<and> length h \<le> out \<and> out < length h'"
    unfolding s by simp
next
  obtain h' r
    where u: "upsertOllamaTitleCacheEntry_store date_now h cache filePath entry maxEntries nowMs = (h', r)"
    by force
  from upsert_store_frame [OF u]
  show "case upsertOllamaTitleCacheEntry_store date_now h cache filePath entry maxEntries nowMs of
      (h', r) \<Rightarrow> take (length h) h' = h \<and> length h \<le> r \<and> r < length h'"
    unfolding u by simp
next
  assume c: "c < length h"
  obtain h' r where p: "pruneOllamaTitleCache_store h c maxEntries = (h', r)" by force
  from prune_store_frame [OF p] c
  have t: "take (length h) h' = h" and w: "r = c \<or> r = length h"
    and s: "r < length h \<longrightarrow> r = c \<and> h' = h" and l: "r < length h'"
    and e: "set (h' ! r) \<subseteq> set (h ! c)"
    by blast+
  have where_r: "r = c \<and> h' = h \<or> length h \<le> r \<and> r < length h'"
    using w s l c by auto
  have noop: "r = c \<and> h' = h"
    if "maxEntries = None
        \<or> (\<exists>q. maxEntries = Some (Num q) \<and> (q \<le> 0 \<or> of_nat (length (h ! c)) \<le> q))"
  proof -
    from that c have "maxEntries = None
        \<or> (\<exists>q. maxEntries = Some (Num q) \<and> (q \<le> 0 \<or> of_nat (length (props h (HRef c))) \<le> q))"
      by (simp add: props_def)
    from prune_store_noop [OF this] p show ?thesis by simp
  qed
  show "case pruneOllamaTitleCache_store h c maxEntries of
           (h', r) \<Rightarrow>
             take (length h) h' = h
             \<and> (r = c \<and> h' = h \<or> length h \<le> r \<and> r < length h')
             \<and> set (h' ! r) \<subseteq> set (h ! c)
             \<and> (maxEntries = None
                  \<or> (\<exists>q. maxEntries = Some (Num q) \<and> (q \<le> 0 \<or> of_nat (length (h ! c)) \<le> q))
                 \<longrightarrow> r = c \<and> h' = h)"
    unfolding p using t where_r e noop by simp
qed

theorem cache_operations_preserve_input_witness:
  "pruneOllamaTitleCache_store
     [[(''a'', HRef 1), (''b'', HRef 2)],
      [(''mtime'', HNum (Num 1)), (''title'', HStr ''A''), (''lastUsed'', HNum (Num 10))],
      [(''mtime'', HNum (Num 1)), (''title'', HStr ''B''), (''lastUsed'', HNum (Num 20))]]
     0 (Some (Num 2))
   = ([[(''a'', HRef 1), (''b'', HRef 2)],
       [(''mtime'', HNum (Num 1)), (''title'', HStr ''A''), (''lastUsed'', HNum (Num 10))],
       [(''mtime'', HNum (Num 1)), (''title'', HStr ''B''), (''lastUsed'', HNum (Num 20))]], 0)
   \<and> take 3 (fst (pruneOllamaTitleCache_store
        [[(''a'', HRef 1), (''b'', HRef 2)],
         [(''mtime'', HNum (Num 1)), (''title'', HStr ''A''), (''lastUsed'', HNum (Num 10))],
         [(''mtime'', HNum (Num 1)), (''title'', HStr ''B''), (''lastUsed'', HNum (Num 20))]]
        0 (Some (Num 1))))
     = [[(''a'', HRef 1), (''b'', HRef 2)],
        [(''mtime'', HNum (Num 1)), (''title'', HStr ''A''), (''lastUsed'', HNum (Num 10))],
        [(''mtime'', HNum (Num 1)), (''title'', HStr ''B''), (''lastUsed'', HNum (Num 20))]]"
proof -
  let ?h = "[[(''a'', HRef 1), (''b'', HRef 2)],
      [(''mtime'', HNum (Num 1)), (''title'', HStr ''A''), (''lastUsed'', HNum (Num 10))],
      [(''mtime'', HNum (Num 1)), (''title'', HStr ''B''), (''lastUsed'', HNum (Num 20))]]"
  obtain h' r where p: "pruneOllamaTitleCache_store ?h 0 (Some (Num 2)) = (h', r)" by force
  obtain h'' r' where p': "pruneOllamaTitleCache_store ?h 0 (Some (Num 1)) = (h'', r')" by force
  have c: "0 < length ?h" by simp
  have m: "Some (Num 2) = None
           \<or> (\<exists>q. Some (Num 2) = Some (Num q) \<and> (q \<le> 0 \<or> of_nat (length (?h ! 0)) \<le> q))"
    by simp
  from cache_operations_preserve_input [of ?h _ _ _ _ _ "Some (Num 2)" _ 0,
      THEN conjunct2, THEN conjunct2, THEN mp, OF c]
  have "r = 0 \<and> h' = ?h" unfolding p using m by simp
  with p have same: "pruneOllamaTitleCache_store ?h 0 (Some (Num 2)) = (?h, 0)" by simp
  from cache_operations_preserve_input [of ?h _ _ _ _ _ "Some (Num 1)" _ 0,
      THEN conjunct2, THEN conjunct2, THEN mp, OF c]
  have "take (length ?h) h'' = ?h" unfolding p' by simp
  moreover have "length ?h = 3" by simp
  ultimately have "take 3 h'' = ?h" by (simp only:)
  then have kept: "take 3 (fst (pruneOllamaTitleCache_store ?h 0 (Some (Num 1)))) = ?h"
    unfolding p' by (simp only: fst_conv)
  from same kept show ?thesis by (rule conjI)
qed

section \<open>C10: colour tags are stored under the trimmed key\<close>

text \<open>
  Claim C10, as amended. \<^verbatim>\<open>sanitizeListItemColorTags\<close> trims each raw key before it
  validates it, and stores under the trimmed key: when the raw map has a key that
  matches \<^verbatim>\<open>day:YYYY-MM-DD\<close> or \<^verbatim>\<open>file:<rest>\<close> after trimming, with a valid colour, the
  result contains the trimmed key. The key maps to the normalized colour of that entry
  unless a later raw key (in enumeration order) trims to the same key and also has a
  valid colour; then the later entry's colour has replaced it.
\<close>

theorem color_tags_trimmed_key:
  assumes entries: "object_entries v = xs @ (rawKey, JStr str) # ys"
    and key: "DAY_KEY_RE (trim rawKey) \<or> FILE_KEY_RE (trim rawKey)"
    and color: "normalizeListItemColor str \<noteq> []"
  shows "trim rawKey \<in> fst ` set (sanitizeListItemColorTags v)
         \<and> ((\<forall>(k', v') \<in> set ys. trim k' = trim rawKey
                \<longrightarrow> (\<forall>s'. v' = JStr s' \<longrightarrow> normalizeListItemColor s' = []))
            \<longrightarrow> map_of (sanitizeListItemColorTags v) (trim rawKey)
                = Some (normalizeListItemColor str))"
proof -
  let ?step = "\<lambda>(rawKey, rawVal) out.
                let key = trim rawKey in
                if key = [] then out
                else if \<not> (DAY_KEY_RE key \<or> FILE_KEY_RE key) then out
                else
                  case rawVal of
                    JStr str \<Rightarrow>
                      let color = normalizeListItemColor str in
                      if color = [] then out else js_assign key color out
                  | _ \<Rightarrow> out"
  let ?before = "fold ?step xs []"
  let ?here = "js_assign (trim rawKey) (normalizeListItemColor str) ?before"
  from entries have obj: "is_object v" by (cases v) auto
  from valid_key_not_proto [OF key] have np: "trim rawKey \<noteq> ''__proto__''" and ne: "trim rawKey \<noteq> []"
    by simp_all
  have run: "sanitizeListItemColorTags v = fold ?step ys ?here"
    using obj key color ne by (simp add: sanitizeListItemColorTags_def entries Let_def)
  have "trim rawKey \<in> fst ` set ?here" using np by (simp add: js_assign_keys)
  then have present: "trim rawKey \<in> fst ` set (sanitizeListItemColorTags v)"
    unfolding run by (rule color_fold_keys_grow)
  have stored: "map_of (sanitizeListItemColorTags v) (trim rawKey) = Some (normalizeListItemColor str)"
    if "\<forall>(k', v') \<in> set ys. trim k' = trim rawKey
          \<longrightarrow> (\<forall>s'. v' = JStr s' \<longrightarrow> normalizeListItemColor s' = [])"
  proof -
    have "map_of (fold ?step ys ?here) (trim rawKey) = map_of ?here (trim rawKey)"
      using that by (rule color_fold_unchanged)
    then show ?thesis unfolding run using np by (simp add: js_assign_map_of)
  qed
  from present stored show ?thesis by blast
qed

theorem color_tags_trimmed_key_witness:
  "map_of (sanitizeListItemColorTags
       (JObj [(''file:a.md'', JStr ''#00ff00''), (''  day:2025-12-15  '', JStr ''#ABC''),
              (''day:2025-12-15 '', JStr ''red'')]))
     ''day:2025-12-15'' = Some ''#aabbcc''"
proof -
  let ?v = "JObj [(''file:a.md'', JStr ''#00ff00''), (''  day:2025-12-15  '', JStr ''#ABC''),
                  (''day:2025-12-15 '', JStr ''red'')]"
  have e: "object_entries ?v
             = [(''file:a.md'', JStr ''#00ff00'')] @ (''  day:2025-12-15  '', JStr ''#ABC'')
                 # [(''day:2025-12-15 '', JStr ''red'')]"
    by simp
  have t: "trim ''  day:2025-12-15  '' = ''day:2025-12-15''" by (simp add: trim_def is_space_def)
  have k: "DAY_KEY_RE (trim ''  day:2025-12-15  '') \<or> FILE_KEY_RE (trim ''  day:2025-12-15  '')"
    unfolding t by (simp add: color_eval)
  have n: "normalizeListItemColor ''#ABC'' = ''#aabbcc''" by code_simp
  have c: "normalizeListItemColor ''#ABC'' \<noteq> []" unfolding n by simp
  have later: "\<forall>(k', v') \<in> set [(''day:2025-12-15 '', JStr ''red'')].
                 trim k' = trim ''  day:2025-12-15  ''
                 \<longrightarrow> (\<forall>s'. v' = JStr s' \<longrightarrow> normalizeListItemColor s' = [])"
    by (simp add: color_eval)
  from color_tags_trimmed_key [OF e k c, THEN conjunct2, THEN mp, OF later]
  show ?thesis unfolding t n .
qed

theorem color_tags_overwritten_counterexample:
  "sanitizeListItemColorTags
     (JObj [(''  day:2025-12-15  '', JStr ''#ABC''), (''day:2025-12-15'', JStr ''#000000'')])
   = [(''day:2025-12-15'', ''#000000'')]"
  by code_simp

end
